theory Spec2Isabelle
  imports Complex_Main "HOL-Library.Sublist"
begin

section \<open>Data model of the preload cache\<close>

text \<open>
  The development embeds the preload cache of the player: a table of
  \<open>MPV_PRELOAD_MAX_ENTRIES\<close> entries guarded by one mutex, one worker thread per
  occupied entry, and the public operations start, get_info, get_demuxer, cancel and
  clear_all.

  Conventions of the embedding.
  \<^item> A pointer into the table (\<open>struct preload_entry *\<close>) is a slot index; a nullable
    pointer is an \<open>option\<close>.
  \<^item> Objects of the demux layer (\<open>mpv_global\<close>, \<open>demuxer\<close>) are opaque handles. What the
    demux layer answers (opening a URL, the reader state of a demuxer, the size of its
    stream) is an argument \<open>eng\<close> of every function that asks it.
  \<^item> \<open>int64_t\<close> and \<open>time_t\<close> values are only stored and compared by this code, never
    computed with, so they are integers.
  \<^item> A \<open>double\<close> is only compared with zero; the type below keeps the cases in which
    such a comparison differs (infinities, NaN).
  \<^item> The field \<open>mp_thread thread\<close> is modelled by the control state of the thread it
    refers to.
  \<^item> Everything a function does to the outside (mutex, threads, cancellation token,
    demux layer, callback) is recorded in the list of events it returns.
  \<^item> A call that blocks for ever (joining a worker that never leaves its loop) has the
    value \<open>None\<close>.
  \<^item> Allocation failures of \<open>strdup\<close> and \<open>mp_cancel_new\<close> are not modelled.
\<close>

definition MPV_PRELOAD_MAX_ENTRIES :: nat where
  "MPV_PRELOAD_MAX_ENTRIES = 4"

type_synonym handle = nat

datatype double = Finite rat | PosInf | NegInf | NaN

fun double_gt_zero :: "double \<Rightarrow> bool" where
  "double_gt_zero (Finite q) = (0 < q)"
| "double_gt_zero PosInf = True"
| "double_gt_zero NegInf = False"
| "double_gt_zero NaN = False"

fun double_ge_zero :: "double \<Rightarrow> bool" where
  "double_ge_zero (Finite q) = (0 \<le> q)"
| "double_ge_zero PosInf = True"
| "double_ge_zero NegInf = False"
| "double_ge_zero NaN = False"

datatype mpv_preload_status =
    MPV_PRELOAD_STATUS_NONE
  | MPV_PRELOAD_STATUS_LOADING
  | MPV_PRELOAD_STATUS_READY
  | MPV_PRELOAD_STATUS_ERROR
  | MPV_PRELOAD_STATUS_CACHED

record mpv_preload_options =
  opts_max_bytes :: int
  opts_readahead_secs :: double

text \<open>
  \<open>mpv_preload_info\<close>. The C field \<open>status\<close> holds the enumeration value as an
  \<open>int64_t\<close>; the model keeps the constructor.
\<close>

record mpv_preload_info =
  info_status :: mpv_preload_status
  info_fw_bytes :: int
  info_total_bytes :: int
  info_file_size :: int
  info_buffered_secs :: double
  info_eof_cached :: bool

text \<open>The fields of \<open>struct demux_reader_state\<close> that this code reads.\<close>

record demux_reader_state =
  fw_bytes :: int
  total_bytes :: int
  eof_cached :: bool
  ts_info_duration :: double

record mp_cancel =
  triggered :: bool

text \<open>
  Control state of a worker thread running \<open>preload_thread\<close>: not created; at the start
  of the function; before \<open>demux_open_url\<close>; after a successful open; at the test of the
  monitor loop; inside the body of the loop; returned. The flag of the two loop states
  is the local variable \<open>target_notified\<close>.
\<close>

datatype thread_state =
    T_none
  | T_start
  | T_open
  | T_opened
  | T_test bool
  | T_body bool
  | T_exited

record preload_entry =
  url :: "string option"
  global :: "handle option"
  demuxer :: "handle option"
  cancel :: "mp_cancel option"
  status :: mpv_preload_status
  thread :: thread_state
  thread_running :: bool
  cancel_requested :: bool
  max_bytes :: int
  readahead_secs :: double
  create_time :: int
  callback_info :: mpv_preload_info

text \<open>
  The static \<open>preload_cache\<close> and the static \<open>g_preload_callback\<close>. The mutex itself
  has no field: locking and unlocking are events.
\<close>

record preload_state =
  entries :: "preload_entry list"
  initialized :: bool
  g_preload_callback :: "handle option"

text \<open>What the demux layer answers when asked.\<close>

record engine =
  talloc_global :: "handle option"
  demux_open_url :: "string option \<Rightarrow> mp_cancel option \<Rightarrow> handle option"
  demux_get_reader_state :: "handle \<Rightarrow> demux_reader_state"
  stream_get_size :: "handle \<Rightarrow> int option"

datatype event =
    MutexLock
  | MutexUnlock
  | ThreadCreate nat
  | ThreadJoin nat
  | CancelTrigger nat
  | CancelWait nat
  | DemuxStartPrefetch nat handle
  | DemuxCancelAndFree nat handle
  | TallocStealGlobal nat handle
  | TallocStealCancel nat
  | Callback handle "string option" mpv_preload_info

definition zero_info :: mpv_preload_info where
  "zero_info = \<lparr> info_status = MPV_PRELOAD_STATUS_NONE, info_fw_bytes = 0,
     info_total_bytes = 0, info_file_size = 0, info_buffered_secs = Finite 0,
     info_eof_cached = False \<rparr>"

text \<open>An entry after \<open>memset(entry, 0, sizeof(*entry))\<close>, and the static initial table.\<close>

definition zero_entry :: preload_entry where
  "zero_entry = \<lparr> url = None, global = None, demuxer = None, cancel = None,
     status = MPV_PRELOAD_STATUS_NONE, thread = T_none, thread_running = False,
     cancel_requested = False, max_bytes = 0, readahead_secs = Finite 0,
     create_time = 0, callback_info = zero_info \<rparr>"

definition initial_state :: preload_state where
  "initial_state = \<lparr> entries = replicate MPV_PRELOAD_MAX_ENTRIES zero_entry,
     initialized = False, g_preload_callback = None \<rparr>"

section \<open>Helpers of the source file\<close>

definition mpv_preload_set_callback :: "handle option \<Rightarrow> preload_state \<Rightarrow> preload_state" where
  "mpv_preload_set_callback callback c = c\<lparr> g_preload_callback := callback \<rparr>"

definition fill_preload_info :: "engine \<Rightarrow> preload_entry \<Rightarrow> mpv_preload_info" where
  "fill_preload_info eng entry =
     (case demuxer entry of
        None \<Rightarrow>
          \<lparr> info_status = status entry, info_fw_bytes = 0, info_total_bytes = 0,
            info_file_size = - 1, info_buffered_secs = Finite 0, info_eof_cached = False \<rparr>
      | Some d \<Rightarrow>
          (let state = demux_get_reader_state eng d in
           \<lparr> info_status = status entry,
             info_fw_bytes = fw_bytes state,
             info_total_bytes = total_bytes state,
             info_file_size = (case stream_get_size eng d of None \<Rightarrow> - 1 | Some n \<Rightarrow> n),
             info_buffered_secs =
               (if double_ge_zero (ts_info_duration state) then ts_info_duration state
                else Finite 0),
             info_eof_cached = eof_cached state \<rparr>))"

definition invoke_callback ::
  "engine \<Rightarrow> handle option \<Rightarrow> preload_entry \<Rightarrow> preload_entry \<times> event list" where
  "invoke_callback eng cb entry =
     (case cb of
        None \<Rightarrow> (entry, [])
      | Some f \<Rightarrow>
          (let info = fill_preload_info eng entry in
           (entry\<lparr> callback_info := info \<rparr>, [Callback f (url entry) info])))"

definition ensure_initialized :: "preload_state \<Rightarrow> preload_state" where
  "ensure_initialized c = (if \<not> initialized c then c\<lparr> initialized := True \<rparr> else c)"

text \<open>
  The loop of \<open>find_entry_locked\<close> over the slots \<open>i, i + 1, ...\<close> of the table;
  \<open>strcmp\<close> on C strings is equality.
\<close>

fun find_entry_from :: "string \<Rightarrow> preload_entry list \<Rightarrow> nat \<Rightarrow> nat option" where
  "find_entry_from u [] i = None"
| "find_entry_from u (e # es) i =
     (if url e = Some u then Some i else find_entry_from u es (Suc i))"

definition find_entry_locked :: "string \<Rightarrow> preload_state \<Rightarrow> nat option" where
  "find_entry_locked u c = find_entry_from u (entries c) 0"

text \<open>
  \<open>create_minimal_global\<close> allocates the context and writes the two demux options into
  it; the model keeps the handle (or the failed allocation).
\<close>

definition create_minimal_global :: "engine \<Rightarrow> int \<Rightarrow> double \<Rightarrow> handle option" where
  "create_minimal_global eng mb rs = talloc_global eng"

definition mp_cancel_test :: "mp_cancel option \<Rightarrow> bool" where
  "mp_cancel_test t = (case t of None \<Rightarrow> False | Some k \<Rightarrow> triggered k)"

section \<open>The worker thread\<close>

text \<open>
  One atomic step of \<open>preload_thread\<close> on the entry of slot \<open>i\<close>, with the callback
  registered at that moment.
\<close>

definition preload_thread_step ::
  "engine \<Rightarrow> handle option \<Rightarrow> nat \<Rightarrow> preload_entry \<Rightarrow> preload_entry \<times> event list" where
  "preload_thread_step eng cb i entry =
     (case thread entry of
        T_none \<Rightarrow> (entry, [])
      | T_exited \<Rightarrow> (entry, [])
      | T_start \<Rightarrow>
          (case create_minimal_global eng (max_bytes entry) (readahead_secs entry) of
             None \<Rightarrow>
               (let (e1, evs) = invoke_callback eng cb
                      (entry\<lparr> global := None, status := MPV_PRELOAD_STATUS_ERROR \<rparr>)
                in (e1\<lparr> thread := T_exited \<rparr>, evs))
           | Some g \<Rightarrow>
               (entry\<lparr> global := Some g, cancel := Some \<lparr> triggered = False \<rparr>,
                       thread := T_open \<rparr>, []))
      | T_open \<Rightarrow>
          (case demux_open_url eng (url entry) (cancel entry) of
             None \<Rightarrow>
               (let (e1, evs) = invoke_callback eng cb
                      (entry\<lparr> demuxer := None, status := MPV_PRELOAD_STATUS_ERROR \<rparr>)
                in (e1\<lparr> thread := T_exited \<rparr>, evs))
           | Some d \<Rightarrow> (entry\<lparr> demuxer := Some d, thread := T_opened \<rparr>, []))
      | T_opened \<Rightarrow>
          (let (e1, evs) = invoke_callback eng cb
                 (entry\<lparr> status := MPV_PRELOAD_STATUS_READY \<rparr>)
           in (e1\<lparr> thread := T_test False \<rparr>,
               (case demuxer entry of None \<Rightarrow> [] | Some d \<Rightarrow> [DemuxStartPrefetch i d]) @ evs))
      | T_test target_notified \<Rightarrow>
          (if \<not> cancel_requested entry \<and> \<not> mp_cancel_test (cancel entry)
           then (entry\<lparr> thread := T_body target_notified \<rparr>, [])
           else (entry\<lparr> thread := T_exited \<rparr>, []))
      | T_body target_notified \<Rightarrow>
          (case (if target_notified then None else demuxer entry) of
             None \<Rightarrow> (entry\<lparr> thread := T_test target_notified \<rparr>, [CancelWait i])
           | Some d \<Rightarrow>
               (let state = demux_get_reader_state eng d in
                if max_bytes entry \<le> fw_bytes state \<or> eof_cached state
                then (let (e1, evs) = invoke_callback eng cb
                            (entry\<lparr> status := MPV_PRELOAD_STATUS_CACHED \<rparr>)
                      in (e1\<lparr> thread := T_test True \<rparr>, evs @ [CancelWait i]))
                else (entry\<lparr> thread := T_test target_notified \<rparr>, [CancelWait i]))))"

text \<open>
  The worker from its present control state until it returns. The loop of the worker
  has no bound of its own, so the run is a partial function: \<open>None\<close> is a worker that
  never returns.
\<close>

partial_function (option) preload_thread_run ::
  "engine \<Rightarrow> handle option \<Rightarrow> nat \<Rightarrow> preload_entry \<Rightarrow> event list
     \<Rightarrow> (preload_entry \<times> event list) option" where
  "preload_thread_run eng cb i entry acc =
     (if thread entry = T_exited \<or> thread entry = T_none then Some (entry, acc)
      else (case preload_thread_step eng cb i entry of
              (e1, evs) \<Rightarrow> preload_thread_run eng cb i e1 (acc @ evs)))"

text \<open>
  \<open>mp_thread_join\<close>: the caller blocks until the worker has returned; what the worker
  does meanwhile happens during the join.
\<close>

definition mp_thread_join ::
  "engine \<Rightarrow> handle option \<Rightarrow> nat \<Rightarrow> preload_entry \<Rightarrow> (preload_entry \<times> event list) option" where
  "mp_thread_join eng cb i entry =
     (case preload_thread_run eng cb i entry [] of
        None \<Rightarrow> None
      | Some (e1, evs) \<Rightarrow> Some (e1, ThreadJoin i # evs))"

section \<open>Stopping and destroying an entry\<close>

definition mp_cancel_trigger :: "mp_cancel \<Rightarrow> mp_cancel" where
  "mp_cancel_trigger t = t\<lparr> triggered := True \<rparr>"

text \<open>The statement \<open>if (entry->cancel) mp_cancel_trigger(entry->cancel);\<close>.\<close>

definition trigger_if_cancel :: "nat \<Rightarrow> preload_entry \<Rightarrow> preload_entry \<times> event list" where
  "trigger_if_cancel i entry =
     (case cancel entry of
        None \<Rightarrow> (entry, [])
      | Some t \<Rightarrow> (entry\<lparr> cancel := Some (mp_cancel_trigger t) \<rparr>, [CancelTrigger i]))"

text \<open>
  The statements
  \<open>entry->cancel_requested = true; if (entry->cancel) mp_cancel_trigger(entry->cancel);\<close>
  with which \<open>cleanup_entry\<close>, \<open>mpv_preload_cancel\<close> and the first loop of
  \<open>mpv_preload_clear_all\<close> begin their work on an entry.
\<close>

definition request_cancel :: "nat \<Rightarrow> preload_entry \<Rightarrow> preload_entry \<times> event list" where
  "request_cancel i entry = trigger_if_cancel i (entry\<lparr> cancel_requested := True \<rparr>)"

text \<open>
  The statement
  \<open>if (entry->thread_running) { mp_thread_join(entry->thread); entry->thread_running = false; }\<close>.
\<close>

definition join_if_running ::
  "engine \<Rightarrow> handle option \<Rightarrow> nat \<Rightarrow> preload_entry \<Rightarrow> (preload_entry \<times> event list) option" where
  "join_if_running eng cb i entry =
     (if thread_running entry
      then (case mp_thread_join eng cb i entry of
              None \<Rightarrow> None
            | Some (e1, evs) \<Rightarrow> Some (e1\<lparr> thread_running := False \<rparr>, evs))
      else Some (entry, []))"

text \<open>
  \<open>cleanup_entry\<close>: the freed fields are set to \<open>NULL\<close> one by one and the entry is
  zeroed at the end, so the entry it leaves is the zero entry.
\<close>

definition cleanup_entry ::
  "engine \<Rightarrow> handle option \<Rightarrow> nat \<Rightarrow> preload_entry \<Rightarrow> (preload_entry \<times> event list) option" where
  "cleanup_entry eng cb i entry =
     (if url entry = None then Some (entry, [])
      else
        (let (e1, ev1) = request_cancel i entry in
         case join_if_running eng cb i e1 of
           None \<Rightarrow> None
         | Some (e2, ev2) \<Rightarrow>
             Some (zero_entry,
                   ev1 @ ev2 @
                   (case demuxer e2 of None \<Rightarrow> [] | Some d \<Rightarrow> [DemuxCancelAndFree i d]))))"

section \<open>Finding a slot\<close>

text \<open>The first loop of \<open>find_free_slot_locked\<close>.\<close>

fun first_free_from :: "preload_entry list \<Rightarrow> nat \<Rightarrow> nat option" where
  "first_free_from [] i = None"
| "first_free_from (e # es) i =
     (if url e = None then Some i else first_free_from es (Suc i))"

text \<open>The second loop, with its variables \<open>oldest\<close> and \<open>oldest_time\<close>.\<close>

fun oldest_from :: "preload_entry list \<Rightarrow> nat \<Rightarrow> nat option \<Rightarrow> int \<Rightarrow> nat option" where
  "oldest_from [] i oldest oldest_time = oldest"
| "oldest_from (e # es) i oldest oldest_time =
     (if oldest = None \<or> create_time e < oldest_time
      then oldest_from es (Suc i) (Some i) (create_time e)
      else oldest_from es (Suc i) oldest oldest_time)"

definition find_free_slot_locked ::
  "engine \<Rightarrow> preload_state \<Rightarrow> (nat option \<times> preload_state \<times> event list) option" where
  "find_free_slot_locked eng c =
     (case first_free_from (entries c) 0 of
        Some i \<Rightarrow> Some (Some i, c, [])
      | None \<Rightarrow>
          (case oldest_from (entries c) 0 None 0 of
             None \<Rightarrow> Some (None, c, [])
           | Some k \<Rightarrow>
               (case cleanup_entry eng (g_preload_callback c) k (entries c ! k) of
                  None \<Rightarrow> None
                | Some (e1, evs) \<Rightarrow>
                    Some (Some k, c\<lparr> entries := (entries c)[k := e1] \<rparr>, evs))))"

section \<open>The public operations\<close>

text \<open>
  The entry \<open>mpv_preload_start\<close> writes into the slot it has found, before it creates
  the thread: the part of the function under the comments "Initialize entry" and
  "Apply options".
\<close>

definition init_entry ::
  "preload_entry \<Rightarrow> string \<Rightarrow> int \<Rightarrow> mpv_preload_options option \<Rightarrow> preload_entry" where
  "init_entry old u now opts =
     old\<lparr> url := Some u,
          status := MPV_PRELOAD_STATUS_LOADING,
          create_time := now,
          cancel_requested := False,
          max_bytes :=
            (case opts of
               None \<Rightarrow> 10 * 1024 * 1024
             | Some ob \<Rightarrow>
                 if 0 < opts_max_bytes ob then opts_max_bytes ob else 10 * 1024 * 1024),
          readahead_secs :=
            (case opts of
               None \<Rightarrow> Finite 10
             | Some ob \<Rightarrow>
                 if double_gt_zero (opts_readahead_secs ob) then opts_readahead_secs ob
                 else Finite 10) \<rparr>"

text \<open>
  \<open>mpv_preload_start\<close>. \<open>now\<close> is what \<open>time(NULL)\<close> returns and \<open>created\<close> tells
  whether \<open>mp_thread_create\<close> succeeds. The result is the returned \<open>int\<close>, the new
  state and the events.
\<close>

definition mpv_preload_start ::
  "engine \<Rightarrow> int \<Rightarrow> bool \<Rightarrow> string option \<Rightarrow> mpv_preload_options option \<Rightarrow> preload_state
     \<Rightarrow> (int \<times> preload_state \<times> event list) option" where
  "mpv_preload_start eng now created url_arg opts c =
     (case url_arg of
        None \<Rightarrow> Some (- 1, c, [])
      | Some u \<Rightarrow>
          if u = [] then Some (- 1, c, [])
          else
            (let c0 = ensure_initialized c in
             case find_entry_locked u c0 of
               Some existing \<Rightarrow> Some (0, c0, [MutexLock, MutexUnlock])
             | None \<Rightarrow>
                 (case find_free_slot_locked eng c0 of
                    None \<Rightarrow> None
                  | Some (None, c1, evs) \<Rightarrow> Some (- 1, c1, [MutexLock] @ evs @ [MutexUnlock])
                  | Some (Some i, c1, evs) \<Rightarrow>
                      (let entry = init_entry (entries c1 ! i) u now opts
                       in if \<not> created
                          then Some (- 1,
                                 c1\<lparr> entries := (entries c1)
                                       [i := entry\<lparr> url := None,
                                                    status := MPV_PRELOAD_STATUS_NONE \<rparr>] \<rparr>,
                                 [MutexLock] @ evs @ [MutexUnlock])
                          else Some (0,
                                 c1\<lparr> entries := (entries c1)
                                       [i := entry\<lparr> thread := T_start,
                                                    thread_running := True \<rparr>] \<rparr>,
                                 [MutexLock] @ evs @ [ThreadCreate i, MutexUnlock])))))"

text \<open>
  \<open>mpv_preload_get_info\<close>. The argument \<open>info\<close> is what the caller's structure holds
  (\<open>None\<close> for a null pointer); the result is the returned \<open>int\<close>, what the structure
  holds afterwards, and the events. The state is not written.
\<close>

definition mpv_preload_get_info ::
  "engine \<Rightarrow> string option \<Rightarrow> mpv_preload_info option \<Rightarrow> preload_state
     \<Rightarrow> int \<times> mpv_preload_info option \<times> event list" where
  "mpv_preload_get_info eng url_arg info c =
     (case url_arg of
        None \<Rightarrow> (- 1, info, [])
      | Some u \<Rightarrow>
          if info = None \<or> \<not> initialized c then (- 1, info, [])
          else
            (case find_entry_locked u c of
               None \<Rightarrow>
                 (- 1, Some (zero_info\<lparr> info_status := MPV_PRELOAD_STATUS_NONE \<rparr>),
                  [MutexLock, MutexUnlock])
             | Some i \<Rightarrow>
                 (0, Some (fill_preload_info eng (entries c ! i)),
                  [MutexLock, MutexUnlock])))"

text \<open>
  \<open>mpv_preload_get_demuxer\<close>. The result is the returned demuxer (\<open>None\<close> for
  \<open>NULL\<close>), the new state and the events.
\<close>

definition mpv_preload_get_demuxer ::
  "engine \<Rightarrow> string option \<Rightarrow> preload_state
     \<Rightarrow> (handle option \<times> preload_state \<times> event list) option" where
  "mpv_preload_get_demuxer eng url_arg c =
     (case url_arg of
        None \<Rightarrow> Some (None, c, [])
      | Some u \<Rightarrow>
          if \<not> initialized c then Some (None, c, [])
          else
            (case find_entry_locked u c of
               None \<Rightarrow> Some (None, c, [MutexLock, MutexUnlock])
             | Some i \<Rightarrow>
                 (let entry = entries c ! i in
                  if status entry = MPV_PRELOAD_STATUS_NONE
                     \<or> status entry = MPV_PRELOAD_STATUS_ERROR
                     \<or> demuxer entry = None
                  then Some (None, c, [MutexLock, MutexUnlock])
                  else
                    (let e1 = entry\<lparr> cancel_requested := True \<rparr> in
                     case (if thread_running e1
                           then (case mp_thread_join eng (g_preload_callback c) i e1 of
                                   None \<Rightarrow> None
                                 | Some (e2, evs) \<Rightarrow>
                                     Some (e2\<lparr> thread_running := False \<rparr>,
                                           [MutexUnlock] @ evs @ [MutexLock]))
                           else Some (e1, [])) of
                       None \<Rightarrow> None
                     | Some (e2, ev2) \<Rightarrow>
                         (let demux = demuxer e2;
                              e3 = e2\<lparr> demuxer := None \<rparr>;
                              ev3 = (case global e3 of
                                       None \<Rightarrow> [] | Some g \<Rightarrow> [TallocStealGlobal i g])
                                    @ (case cancel e3 of
                                         None \<Rightarrow> [] | Some t \<Rightarrow> [TallocStealCancel i]);
                              e4 = e3\<lparr> url := None, status := MPV_PRELOAD_STATUS_NONE,
                                       global := None, cancel := None \<rparr>
                          in Some (demux, c\<lparr> entries := (entries c)[i := e4] \<rparr>,
                                   [MutexLock] @ ev2 @ ev3 @ [MutexUnlock]))))))"

definition mpv_preload_cancel ::
  "engine \<Rightarrow> string option \<Rightarrow> preload_state \<Rightarrow> (int \<times> preload_state \<times> event list) option" where
  "mpv_preload_cancel eng url_arg c =
     (case url_arg of
        None \<Rightarrow> Some (- 1, c, [])
      | Some u \<Rightarrow>
          if \<not> initialized c then Some (- 1, c, [])
          else
            (case find_entry_locked u c of
               None \<Rightarrow> Some (- 1, c, [MutexLock, MutexUnlock])
             | Some i \<Rightarrow>
                 (let (e1, ev1) = request_cancel i (entries c ! i)
                  in case join_if_running eng (g_preload_callback c) i e1 of
                       None \<Rightarrow> None
                     | Some (e2, ev2) \<Rightarrow>
                         (case cleanup_entry eng (g_preload_callback c) i e2 of
                            None \<Rightarrow> None
                          | Some (e3, ev3) \<Rightarrow>
                              Some (0, c\<lparr> entries := (entries c)[i := e3] \<rparr>,
                                    [MutexLock] @ ev1 @ [MutexUnlock] @ ev2
                                    @ [MutexLock] @ ev3 @ [MutexUnlock])))))"

text \<open>The three loops of \<open>mpv_preload_clear_all\<close>, over the slots \<open>i, i + 1, ...\<close>.\<close>

fun clear_all_request :: "preload_entry list \<Rightarrow> nat \<Rightarrow> preload_entry list \<times> event list" where
  "clear_all_request [] i = ([], [])"
| "clear_all_request (e # es) i =
     (let (e1, ev1) = (if url e \<noteq> None then request_cancel i e else (e, []));
          (es1, evs) = clear_all_request es (Suc i)
      in (e1 # es1, ev1 @ evs))"

fun clear_all_join ::
  "engine \<Rightarrow> handle option \<Rightarrow> preload_entry list \<Rightarrow> nat
     \<Rightarrow> (preload_entry list \<times> event list) option" where
  "clear_all_join eng cb [] i = Some ([], [])"
| "clear_all_join eng cb (e # es) i =
     (case join_if_running eng cb i e of
        None \<Rightarrow> None
      | Some (e1, ev1) \<Rightarrow>
          (case clear_all_join eng cb es (Suc i) of
             None \<Rightarrow> None
           | Some (es1, evs) \<Rightarrow> Some (e1 # es1, ev1 @ evs)))"

fun clear_all_cleanup ::
  "engine \<Rightarrow> handle option \<Rightarrow> preload_entry list \<Rightarrow> nat
     \<Rightarrow> (preload_entry list \<times> event list) option" where
  "clear_all_cleanup eng cb [] i = Some ([], [])"
| "clear_all_cleanup eng cb (e # es) i =
     (case cleanup_entry eng cb i e of
        None \<Rightarrow> None
      | Some (e1, ev1) \<Rightarrow>
          (case clear_all_cleanup eng cb es (Suc i) of
             None \<Rightarrow> None
           | Some (es1, evs) \<Rightarrow> Some (e1 # es1, ev1 @ evs)))"

definition mpv_preload_clear_all ::
  "engine \<Rightarrow> preload_state \<Rightarrow> (preload_state \<times> event list) option" where
  "mpv_preload_clear_all eng c =
     (if \<not> initialized c then Some (c, [])
      else
        (let (es1, ev1) = clear_all_request (entries c) 0 in
         case clear_all_join eng (g_preload_callback c) es1 0 of
           None \<Rightarrow> None
         | Some (es2, ev2) \<Rightarrow>
             (case clear_all_cleanup eng (g_preload_callback c) es2 0 of
                None \<Rightarrow> None
              | Some (es3, ev3) \<Rightarrow>
                  Some (c\<lparr> entries := es3 \<rparr>,
                        [MutexLock] @ ev1 @ [MutexUnlock] @ ev2
                        @ [MutexLock] @ ev3 @ [MutexUnlock]))))"

section \<open>Sequences of operations\<close>

text \<open>
  The callers of the cache are serialised: one public operation runs at a time, and the
  workers take their steps between the operations (and, for the worker that is joined,
  during the join).
\<close>

datatype action =
    Start int bool "string option" "mpv_preload_options option"
  | GetInfo "string option" "mpv_preload_info option"
  | GetDemuxer "string option"
  | Cancel "string option"
  | ClearAll
  | SetCallback "handle option"
  | WorkerStep nat

definition worker_step :: "engine \<Rightarrow> nat \<Rightarrow> preload_state \<Rightarrow> preload_state \<times> event list" where
  "worker_step eng i c =
     (if i < length (entries c)
      then (let (e1, evs) = preload_thread_step eng (g_preload_callback c) i (entries c ! i)
            in (c\<lparr> entries := (entries c)[i := e1] \<rparr>, evs))
      else (c, []))"

fun apply_action :: "engine \<Rightarrow> action \<Rightarrow> preload_state \<Rightarrow> (preload_state \<times> event list) option" where
  "apply_action eng (Start now created u opts) c =
     (case mpv_preload_start eng now created u opts c of
        None \<Rightarrow> None | Some (r, c1, evs) \<Rightarrow> Some (c1, evs))"
| "apply_action eng (GetInfo u info) c =
     (case mpv_preload_get_info eng u info c of (r, info1, evs) \<Rightarrow> Some (c, evs))"
| "apply_action eng (GetDemuxer u) c =
     (case mpv_preload_get_demuxer eng u c of
        None \<Rightarrow> None | Some (r, c1, evs) \<Rightarrow> Some (c1, evs))"
| "apply_action eng (Cancel u) c =
     (case mpv_preload_cancel eng u c of
        None \<Rightarrow> None | Some (r, c1, evs) \<Rightarrow> Some (c1, evs))"
| "apply_action eng ClearAll c = mpv_preload_clear_all eng c"
| "apply_action eng (SetCallback cb) c = Some (mpv_preload_set_callback cb c, [])"
| "apply_action eng (WorkerStep i) c = Some (worker_step eng i c)"

fun run_actions ::
  "(engine \<times> action) list \<Rightarrow> preload_state \<Rightarrow> (preload_state \<times> event list) option" where
  "run_actions [] c = Some (c, [])"
| "run_actions ((eng, a) # rest) c =
     (case apply_action eng a c of
        None \<Rightarrow> None
      | Some (c1, ev1) \<Rightarrow>
          (case run_actions rest c1 of
             None \<Rightarrow> None
           | Some (c2, ev2) \<Rightarrow> Some (c2, ev1 @ ev2)))"

section \<open>Invariants of the table\<close>

text \<open>
  What holds of every entry between two operations: a free slot owns no demuxer, has no
  running thread and has status NONE; and the control state of the worker determines
  the status it has written and whether the demuxer is open.
\<close>

definition entry_inv :: "preload_entry \<Rightarrow> bool" where
  "entry_inv e =
     ((url e = None \<longrightarrow>
         demuxer e = None \<and> \<not> thread_running e \<and> status e = MPV_PRELOAD_STATUS_NONE) \<and>
      (case thread e of
         T_none \<Rightarrow> True
       | T_exited \<Rightarrow> True
       | T_start \<Rightarrow>
           thread_running e \<and> status e = MPV_PRELOAD_STATUS_LOADING \<and> demuxer e = None
       | T_open \<Rightarrow>
           thread_running e \<and> status e = MPV_PRELOAD_STATUS_LOADING \<and> demuxer e = None
       | T_opened \<Rightarrow>
           thread_running e \<and> status e = MPV_PRELOAD_STATUS_LOADING \<and> demuxer e \<noteq> None
       | T_test b \<Rightarrow>
           thread_running e \<and> demuxer e \<noteq> None
           \<and> status e = (if b then MPV_PRELOAD_STATUS_CACHED else MPV_PRELOAD_STATUS_READY)
       | T_body b \<Rightarrow>
           thread_running e \<and> demuxer e \<noteq> None
           \<and> status e = (if b then MPV_PRELOAD_STATUS_CACHED else MPV_PRELOAD_STATUS_READY)))"

definition unique_urls :: "preload_entry list \<Rightarrow> bool" where
  "unique_urls es =
     (\<forall>i < length es. \<forall>j < length es.
        url (es ! i) \<noteq> None \<and> url (es ! i) = url (es ! j) \<longrightarrow> i = j)"

definition cache_inv :: "preload_state \<Rightarrow> bool" where
  "cache_inv c =
     (length (entries c) = MPV_PRELOAD_MAX_ENTRIES
      \<and> (\<forall>e \<in> set (entries c). entry_inv e \<and> (url e \<noteq> None \<longrightarrow> thread_running e))
      \<and> unique_urls (entries c)
      \<and> (\<not> initialized c \<longrightarrow> (\<forall>e \<in> set (entries c). url e = None)))"

text \<open>Events that only a worker thread produces.\<close>

definition is_worker_event :: "event \<Rightarrow> bool" where
  "is_worker_event ev =
     (case ev of CancelWait i \<Rightarrow> True | DemuxStartPrefetch i d \<Rightarrow> True
      | Callback f u info \<Rightarrow> True | _ \<Rightarrow> False)"

text \<open>
  An upper bound of the number of steps a worker still takes once a stop has been
  requested.
\<close>

fun steps_left :: "thread_state \<Rightarrow> nat" where
  "steps_left T_none = 0"
| "steps_left T_exited = 0"
| "steps_left (T_test b) = 1"
| "steps_left (T_body b) = 2"
| "steps_left T_opened = 2"
| "steps_left T_open = 3"
| "steps_left T_start = 4"

text \<open>The slot the second loop selects: the first among those of least creation time.\<close>

definition is_oldest :: "preload_entry list \<Rightarrow> nat \<Rightarrow> bool" where
  "is_oldest es k =
     (k < length es
      \<and> (\<forall>m < length es. create_time (es ! k) \<le> create_time (es ! m))
      \<and> (\<forall>m < k. create_time (es ! k) < create_time (es ! m)))"

text \<open>
  The test of \<open>mpv_preload_get_demuxer\<close> under the mutex: the cache is initialised,
  slot \<open>i\<close> is the entry found for the locator, its status is neither NONE nor ERROR
  and its demuxer is not null.
\<close>

definition claimable :: "string \<Rightarrow> preload_state \<Rightarrow> nat \<Rightarrow> bool" where
  "claimable u c i =
     (initialized c \<and> find_entry_locked u c = Some i
      \<and> status (entries c ! i) \<noteq> MPV_PRELOAD_STATUS_NONE
      \<and> status (entries c ! i) \<noteq> MPV_PRELOAD_STATUS_ERROR
      \<and> demuxer (entries c ! i) \<noteq> None)"

section \<open>Concrete tables and entries\<close>

text \<open>
  A demux layer that opens every locator at once, as demuxer 7, and reports 1000 bytes
  cached ahead and the end of the source not cached.
\<close>

definition demo_engine :: engine where
  "demo_engine = \<lparr> talloc_global = Some 1,
     demux_open_url = (\<lambda>u t. Some 7),
     demux_get_reader_state = (\<lambda>d. \<lparr> fw_bytes = 1000, total_bytes = 1500, eof_cached = False,
                                      ts_info_duration = Finite 2 \<rparr>),
     stream_get_size = (\<lambda>d. Some 5000) \<rparr>"

text \<open>An entry whose worker has opened the demuxer and monitors it, and a table with one.\<close>

definition ready_entry :: "string \<Rightarrow> int \<Rightarrow> preload_entry" where
  "ready_entry u t = \<lparr> url = Some u, global = Some 1, demuxer = Some 7,
     cancel = Some \<lparr> triggered = False \<rparr>, status = MPV_PRELOAD_STATUS_READY,
     thread = T_test False, thread_running = True, cancel_requested = False,
     max_bytes = 1000, readahead_secs = Finite 1, create_time = t,
     callback_info = zero_info \<rparr>"

definition one_ready :: preload_state where
  "one_ready = \<lparr> entries = [ready_entry ''a'' 100, zero_entry, zero_entry, zero_entry],
     initialized = True, g_preload_callback = Some 3 \<rparr>"

text \<open>
  The operations that stop no worker and insert no entry: a step of a worker, a query,
  and the registration of the callback.
\<close>

fun no_stop :: "action \<Rightarrow> bool" where
  "no_stop (WorkerStep i) = True"
| "no_stop (GetInfo u info) = True"
| "no_stop (SetCallback cb) = True"
| "no_stop (Start now created u opts) = False"
| "no_stop (GetDemuxer u) = False"
| "no_stop (Cancel u) = False"
| "no_stop ClearAll = False"

text \<open>An entry as \<open>mpv_preload_start\<close> leaves it in a zeroed slot, with default options.\<close>

definition started_entry :: "string \<Rightarrow> int \<Rightarrow> preload_entry" where
  "started_entry u now =
     (init_entry zero_entry u now None)\<lparr> thread := T_start, thread_running := True \<rparr>"

text \<open>An initialised cache with the given table and no callback registered.\<close>

definition table_of :: "preload_entry list \<Rightarrow> preload_state" where
  "table_of es = \<lparr> entries = es, initialized = True, g_preload_callback = None \<rparr>"

text \<open>Four started entries, in the order of their creation.\<close>

definition full_table :: preload_state where
  "full_table = table_of [started_entry ''a'' 1, started_entry ''b'' 2,
                          started_entry ''c'' 3, started_entry ''d'' 4]"

text \<open>
  The entry of slot 0 of \<open>full_table\<close> replaced by the one that \<open>mpv_preload_start\<close>
  writes for the locator \<open>e\<close> at time 5.
\<close>

definition full_table_evicted :: preload_state where
  "full_table_evicted = table_of [started_entry ''e'' 5, started_entry ''b'' 2,
                                  started_entry ''c'' 3, started_entry ''d'' 4]"


text \<open>
  The lock discipline on a list of events: no \<open>mp_thread_join\<close> while the mutex is
  held. The first argument tells whether the mutex is held before the events.
\<close>

fun joins_outside_lock :: "bool \<Rightarrow> event list \<Rightarrow> bool" where
  "joins_outside_lock held [] = True"
| "joins_outside_lock held (MutexLock # evs) = joins_outside_lock True evs"
| "joins_outside_lock held (MutexUnlock # evs) = joins_outside_lock False evs"
| "joins_outside_lock held (ThreadJoin i # evs) = (\<not> held \<and> joins_outside_lock held evs)"
| "joins_outside_lock held (ev # evs) = joins_outside_lock held evs"

section \<open>The life of one worker\<close>

text \<open>
  What an operation can do to an entry between two steps of its worker without
  destroying the entry: nothing, the soft stop of \<open>mpv_preload_get_demuxer\<close> (the flag),
  or the hard cancel with which the destroying operations begin (the flag and the token).
\<close>

datatype interference = NoInterference | SoftStop | HardCancel

fun interfere :: "interference \<Rightarrow> nat \<Rightarrow> preload_entry \<Rightarrow> preload_entry" where
  "interfere NoInterference i e = e"
| "interfere SoftStop i e = e\<lparr> cancel_requested := True \<rparr>"
| "interfere HardCancel i e = fst (request_cancel i e)"

text \<open>
  A run of the worker of slot \<open>i\<close>: for each step, what the demux layer answers, the
  callback registered at that moment, and what an operation has done to the entry since
  the step before. The result lists the entry and the events after each step.
\<close>

fun thread_run ::
  "(engine \<times> handle option \<times> interference) list \<Rightarrow> nat \<Rightarrow> preload_entry
     \<Rightarrow> (preload_entry \<times> event list) list" where
  "thread_run [] i e = []"
| "thread_run ((eng, cb, x) # rest) i e =
     (let r = preload_thread_step eng cb i (interfere x i e)
      in r # thread_run rest i (fst r))"

text \<open>The statuses that the callback is given, in the order of the events.\<close>

fun callback_statuses :: "event list \<Rightarrow> mpv_preload_status list" where
  "callback_statuses [] = []"
| "callback_statuses (Callback f u info # evs) = info_status info # callback_statuses evs"
| "callback_statuses (ev # evs) = callback_statuses evs"

text \<open>
  The arrows NONE \<open>\<rightarrow>\<close> LOADING \<open>\<rightarrow>\<close> READY \<open>\<rightarrow>\<close> CACHED and LOADING \<open>\<rightarrow>\<close> ERROR, and
  the statuses that can be reached along them.
\<close>

definition status_next :: "mpv_preload_status \<Rightarrow> mpv_preload_status \<Rightarrow> bool" where
  "status_next s t =
     ((s = MPV_PRELOAD_STATUS_NONE \<and> t = MPV_PRELOAD_STATUS_LOADING)
      \<or> (s = MPV_PRELOAD_STATUS_LOADING \<and> t = MPV_PRELOAD_STATUS_READY)
      \<or> (s = MPV_PRELOAD_STATUS_READY \<and> t = MPV_PRELOAD_STATUS_CACHED)
      \<or> (s = MPV_PRELOAD_STATUS_LOADING \<and> t = MPV_PRELOAD_STATUS_ERROR))"

fun status_reaches :: "mpv_preload_status \<Rightarrow> mpv_preload_status \<Rightarrow> bool" where
  "status_reaches MPV_PRELOAD_STATUS_NONE t = True"
| "status_reaches MPV_PRELOAD_STATUS_LOADING t = (t \<noteq> MPV_PRELOAD_STATUS_NONE)"
| "status_reaches MPV_PRELOAD_STATUS_READY t =
     (t = MPV_PRELOAD_STATUS_READY \<or> t = MPV_PRELOAD_STATUS_CACHED)"
| "status_reaches MPV_PRELOAD_STATUS_ERROR t = (t = MPV_PRELOAD_STATUS_ERROR)"
| "status_reaches MPV_PRELOAD_STATUS_CACHED t = (t = MPV_PRELOAD_STATUS_CACHED)"

text \<open>
  An entry started with a budget of 1000 bytes, for a demux layer that reports 1000
  bytes cached ahead.
\<close>

definition small_entry :: preload_entry where
  "small_entry =
     (init_entry zero_entry ''a'' 100
        (Some \<lparr> opts_max_bytes = 1000, opts_readahead_secs = Finite 1 \<rparr>))
       \<lparr> thread := T_start, thread_running := True \<rparr>"

text \<open>The same entry when its worker is about to poll for the first time.\<close>

definition polling_entry :: preload_entry where
  "polling_entry =
     small_entry\<lparr> global := Some 1, demuxer := Some 7,
                  cancel := Some \<lparr> triggered = False \<rparr>,
                  status := MPV_PRELOAD_STATUS_READY, thread := T_body False \<rparr>"

text \<open>
  The statuses that a worker in a given control state can still give to the callback.
\<close>

fun may_notify :: "thread_state \<Rightarrow> mpv_preload_status list \<Rightarrow> bool" where
  "may_notify T_start cbs =
     (cbs = [] \<or> cbs = [MPV_PRELOAD_STATUS_ERROR] \<or> cbs = [MPV_PRELOAD_STATUS_READY]
      \<or> cbs = [MPV_PRELOAD_STATUS_CACHED]
      \<or> cbs = [MPV_PRELOAD_STATUS_READY, MPV_PRELOAD_STATUS_CACHED])"
| "may_notify T_open cbs =
     (cbs = [] \<or> cbs = [MPV_PRELOAD_STATUS_ERROR] \<or> cbs = [MPV_PRELOAD_STATUS_READY]
      \<or> cbs = [MPV_PRELOAD_STATUS_CACHED]
      \<or> cbs = [MPV_PRELOAD_STATUS_READY, MPV_PRELOAD_STATUS_CACHED])"
| "may_notify T_opened cbs =
     (cbs = [] \<or> cbs = [MPV_PRELOAD_STATUS_READY] \<or> cbs = [MPV_PRELOAD_STATUS_CACHED]
      \<or> cbs = [MPV_PRELOAD_STATUS_READY, MPV_PRELOAD_STATUS_CACHED])"
| "may_notify (T_test b) cbs =
     (cbs = [] \<or> (\<not> b \<and> cbs = [MPV_PRELOAD_STATUS_CACHED]))"
| "may_notify (T_body b) cbs =
     (cbs = [] \<or> (\<not> b \<and> cbs = [MPV_PRELOAD_STATUS_CACHED]))"
| "may_notify T_exited cbs = (cbs = [])"
| "may_notify T_none cbs = (cbs = [])"

section \<open>Properties of the worker and of the helpers\<close>

lemma invoke_callback_fields [simp]:
  "url (fst (invoke_callback eng cb e)) = url e"
  "global (fst (invoke_callback eng cb e)) = global e"
  "demuxer (fst (invoke_callback eng cb e)) = demuxer e"
  "cancel (fst (invoke_callback eng cb e)) = cancel e"
  "status (fst (invoke_callback eng cb e)) = status e"
  "thread (fst (invoke_callback eng cb e)) = thread e"
  "thread_running (fst (invoke_callback eng cb e)) = thread_running e"
  "cancel_requested (fst (invoke_callback eng cb e)) = cancel_requested e"
  "max_bytes (fst (invoke_callback eng cb e)) = max_bytes e"
  "readahead_secs (fst (invoke_callback eng cb e)) = readahead_secs e"
  "create_time (fst (invoke_callback eng cb e)) = create_time e"
  by (simp_all add: invoke_callback_def Let_def split: option.splits)

lemma step_frame:
  "url (fst (preload_thread_step eng cb i e)) = url e"
  "thread_running (fst (preload_thread_step eng cb i e)) = thread_running e"
  "cancel_requested (fst (preload_thread_step eng cb i e)) = cancel_requested e"
  "max_bytes (fst (preload_thread_step eng cb i e)) = max_bytes e"
  "readahead_secs (fst (preload_thread_step eng cb i e)) = readahead_secs e"
  "create_time (fst (preload_thread_step eng cb i e)) = create_time e"
  by (simp_all add: preload_thread_step_def Let_def split_beta
        split: thread_state.splits option.splits)

lemma step_decreases:
  "cancel_requested e \<Longrightarrow> thread e \<noteq> T_exited \<Longrightarrow> thread e \<noteq> T_none \<Longrightarrow>
   steps_left (thread (fst (preload_thread_step eng cb i e))) < steps_left (thread e)"
  by (simp add: preload_thread_step_def Let_def split_beta
        split: thread_state.splits option.splits)

lemma preload_thread_run_rule:
  assumes "cancel_requested e" and "P e"
    and step: "\<And>x. P x \<Longrightarrow> cancel_requested x \<Longrightarrow>
               P (fst (preload_thread_step eng cb i x))
               \<and> (\<forall>ev \<in> set (snd (preload_thread_step eng cb i x)). Q ev)"
  shows "\<exists>e1 evs. preload_thread_run eng cb i e acc = Some (e1, acc @ evs) \<and> P e1
           \<and> cancel_requested e1
           \<and> (thread e1 = T_exited \<or> thread e1 = T_none) \<and> (\<forall>ev \<in> set evs. Q ev)"
  using assms(1,2)
proof (induction "steps_left (thread e)" arbitrary: e acc rule: less_induct)
  case less
  show ?case
  proof (cases "thread e = T_exited \<or> thread e = T_none")
    case True
    then have "preload_thread_run eng cb i e acc = Some (e, acc @ [])"
      by (subst preload_thread_run.simps) simp
    with True less.prems show ?thesis by fastforce
  next
    case False
    obtain e1 evs where st: "preload_thread_step eng cb i e = (e1, evs)"
      by (cases "preload_thread_step eng cb i e")
    have d: "steps_left (thread e1) < steps_left (thread e)"
      using step_decreases [of e eng cb i] False less.prems st by simp
    have c1: "cancel_requested e1" using step_frame(3) [of eng cb i e] st less.prems by simp
    have p1: "P e1" and q1: "\<forall>ev \<in> set evs. Q ev"
      using step [OF less.prems(2) less.prems(1)] st by simp_all
    from less.hyps [OF d c1 p1, of "acc @ evs"]
    obtain e2 evs2 where r: "preload_thread_run eng cb i e1 (acc @ evs) = Some (e2, (acc @ evs) @ evs2)"
      and rest: "P e2" "cancel_requested e2" "thread e2 = T_exited \<or> thread e2 = T_none" "\<forall>ev \<in> set evs2. Q ev"
      by blast
    have "preload_thread_run eng cb i e acc = Some (e2, acc @ (evs @ evs2))"
      using False st r by (subst preload_thread_run.simps) simp
    with rest q1 show ?thesis by (intro exI [of _ e2] exI [of _ "evs @ evs2"]) auto
  qed
qed

lemma entry_inv_zero [simp]: "entry_inv zero_entry"
  by (simp add: entry_inv_def zero_entry_def)

lemma zero_entry_sel [simp]:
  "url zero_entry = None" "demuxer zero_entry = None" "global zero_entry = None"
  "cancel zero_entry = None" "status zero_entry = MPV_PRELOAD_STATUS_NONE"
  "thread zero_entry = T_none" "thread_running zero_entry = False"
  by (simp_all add: zero_entry_def)

lemma step_entry_inv:
  "entry_inv e \<Longrightarrow> entry_inv (fst (preload_thread_step eng cb i e))"
  by (auto simp: entry_inv_def preload_thread_step_def Let_def split_beta
        split: thread_state.splits option.splits if_splits)

lemma step_worker_events:
  "ev \<in> set (snd (preload_thread_step eng cb i e)) \<Longrightarrow> is_worker_event ev"
  by (auto simp: preload_thread_step_def invoke_callback_def is_worker_event_def Let_def split_beta
        split: thread_state.splits option.splits if_splits)

lemma step_demuxer_kept:
  "thread e \<noteq> T_start \<Longrightarrow> thread e \<noteq> T_open \<Longrightarrow>
   demuxer (fst (preload_thread_step eng cb i e)) = demuxer e
   \<and> thread (fst (preload_thread_step eng cb i e)) \<noteq> T_start
   \<and> thread (fst (preload_thread_step eng cb i e)) \<noteq> T_open"
  by (auto simp: preload_thread_step_def Let_def split_beta
        split: thread_state.splits option.splits if_splits)

lemma step_token_kept:
  "cancel e = Some t \<Longrightarrow> thread e \<noteq> T_start \<Longrightarrow>
   cancel (fst (preload_thread_step eng cb i e)) = Some t
   \<and> thread (fst (preload_thread_step eng cb i e)) \<noteq> T_start"
  by (auto simp: preload_thread_step_def Let_def split_beta
        split: thread_state.splits option.splits if_splits)

text \<open>What a join leaves, when a stop has been requested.\<close>

lemma mp_thread_join_stops:
  assumes "cancel_requested e" "entry_inv e"
  shows "\<exists>e1 evs. mp_thread_join eng cb i e = Some (e1, ThreadJoin i # evs)
           \<and> entry_inv e1 \<and> url e1 = url e \<and> thread_running e1 = thread_running e
           \<and> cancel_requested e1
           \<and> max_bytes e1 = max_bytes e \<and> readahead_secs e1 = readahead_secs e
           \<and> create_time e1 = create_time e
           \<and> (demuxer e \<noteq> None \<longrightarrow> demuxer e1 = demuxer e)
           \<and> (thread e1 = T_exited \<or> thread e1 = T_none)
           \<and> (\<forall>ev \<in> set evs. is_worker_event ev)"
proof -
  let ?P = "\<lambda>x. entry_inv x \<and> url x = url e \<and> thread_running x = thread_running e
              \<and> max_bytes x = max_bytes e \<and> readahead_secs x = readahead_secs e
              \<and> create_time x = create_time e
              \<and> (demuxer e \<noteq> None \<longrightarrow> demuxer x = demuxer e \<and> thread x \<noteq> T_start \<and> thread x \<noteq> T_open)"
  have P0: "?P e" using assms(2) by (auto simp: entry_inv_def split: thread_state.splits)
  have st: "\<And>x. ?P x \<Longrightarrow> cancel_requested x \<Longrightarrow>
               ?P (fst (preload_thread_step eng cb i x))
               \<and> (\<forall>ev \<in> set (snd (preload_thread_step eng cb i x)). is_worker_event ev)"
    using step_entry_inv step_worker_events step_demuxer_kept by (simp add: step_frame)
  from preload_thread_run_rule [of e ?P eng cb i is_worker_event "[]", OF assms(1) P0 st]
  show ?thesis unfolding mp_thread_join_def by fastforce
qed

lemma request_cancel_fields [simp]:
  "url (fst (request_cancel i e)) = url e"
  "global (fst (request_cancel i e)) = global e"
  "demuxer (fst (request_cancel i e)) = demuxer e"
  "status (fst (request_cancel i e)) = status e"
  "thread (fst (request_cancel i e)) = thread e"
  "thread_running (fst (request_cancel i e)) = thread_running e"
  "cancel_requested (fst (request_cancel i e)) = True"
  "max_bytes (fst (request_cancel i e)) = max_bytes e"
  "readahead_secs (fst (request_cancel i e)) = readahead_secs e"
  "create_time (fst (request_cancel i e)) = create_time e"
  by (simp_all add: request_cancel_def trigger_if_cancel_def split: option.splits)

lemma request_cancel_token:
  "cancel (fst (request_cancel i e)) = map_option mp_cancel_trigger (cancel e)"
  "snd (request_cancel i e) = (case cancel e of None \<Rightarrow> [] | Some t \<Rightarrow> [CancelTrigger i])"
  by (simp_all add: request_cancel_def trigger_if_cancel_def split: option.splits)

lemma request_cancel_inv: "entry_inv e \<Longrightarrow> entry_inv (fst (request_cancel i e))"
  by (simp add: entry_inv_def split: thread_state.splits)

lemma set_flag_inv: "entry_inv e \<Longrightarrow> entry_inv (e\<lparr> cancel_requested := True \<rparr>)"
  by (simp add: entry_inv_def split: thread_state.splits)

lemma join_if_running_stops:
  assumes "cancel_requested e" "entry_inv e"
  shows "\<exists>e1 evs. join_if_running eng cb i e = Some (e1, evs)
           \<and> entry_inv e1 \<and> url e1 = url e \<and> \<not> thread_running e1
           \<and> cancel_requested e1
           \<and> max_bytes e1 = max_bytes e \<and> readahead_secs e1 = readahead_secs e
           \<and> create_time e1 = create_time e
           \<and> (demuxer e \<noteq> None \<longrightarrow> demuxer e1 = demuxer e)
           \<and> (thread e1 = T_exited \<or> thread e1 = T_none)
           \<and> (if thread_running e
               then \<exists>ws. evs = ThreadJoin i # ws \<and> (\<forall>ev \<in> set ws. is_worker_event ev)
               else evs = [] \<and> e1 = e)"
proof (cases "thread_running e")
  case True
  from mp_thread_join_stops [OF assms, of eng cb i]
  obtain e1 ws where j: "mp_thread_join eng cb i e = Some (e1, ThreadJoin i # ws)"
    and f: "entry_inv e1" "url e1 = url e" "cancel_requested e1"
      "max_bytes e1 = max_bytes e" "readahead_secs e1 = readahead_secs e"
      "create_time e1 = create_time e" "demuxer e \<noteq> None \<longrightarrow> demuxer e1 = demuxer e"
      "thread e1 = T_exited \<or> thread e1 = T_none" "\<forall>ev \<in> set ws. is_worker_event ev"
    by blast
  have u: "url e \<noteq> None" using assms(2) True by (auto simp: entry_inv_def)
  have inv: "entry_inv (e1\<lparr> thread_running := False \<rparr>)"
    using f(1,2,8) u by (auto simp: entry_inv_def)
  show ?thesis
    using True j f inv by (simp add: join_if_running_def)
next
  case False
  then have "thread e = T_exited \<or> thread e = T_none"
    using assms(2) by (auto simp: entry_inv_def split: thread_state.splits)
  with False assms show ?thesis by (simp add: join_if_running_def)
qed

lemma cleanup_entry_returns:
  assumes "entry_inv e"
  shows "\<exists>evs. cleanup_entry eng cb i e = Some (if url e = None then e else zero_entry, evs)
           \<and> (url e = None \<longrightarrow> evs = [])
           \<and> (url e \<noteq> None \<longrightarrow>
                (\<exists>ws fr. evs = (case cancel e of None \<Rightarrow> [] | Some t \<Rightarrow> [CancelTrigger i])
                         @ (if thread_running e then ThreadJoin i # ws else []) @ fr
                      \<and> (\<forall>ev \<in> set ws. is_worker_event ev)
                      \<and> (case demuxer e of
                            Some d \<Rightarrow> fr = [DemuxCancelAndFree i d]
                          | None \<Rightarrow> fr = [] \<or> (thread_running e \<and> (\<exists>d. fr = [DemuxCancelAndFree i d])))))"
proof (cases "url e = None")
  case True
  then show ?thesis by (simp add: cleanup_entry_def)
next
  case False
  let ?e1 = "fst (request_cancel i e)"
  let ?tr = "case cancel e of None \<Rightarrow> [] | Some t \<Rightarrow> [CancelTrigger i]"
  have c1: "cancel_requested ?e1" by simp
  have i1: "entry_inv ?e1" using assms by (rule request_cancel_inv)
  from join_if_running_stops [OF c1 i1, of eng cb i]
  obtain e2 ev2 where j: "join_if_running eng cb i ?e1 = Some (e2, ev2)"
    and d: "demuxer ?e1 \<noteq> None \<longrightarrow> demuxer e2 = demuxer ?e1"
    and ev: "if thread_running ?e1
               then \<exists>ws. ev2 = ThreadJoin i # ws \<and> (\<forall>ev \<in> set ws. is_worker_event ev)
               else ev2 = [] \<and> e2 = ?e1"
    by blast
  let ?fr = "case demuxer e2 of None \<Rightarrow> [] | Some d \<Rightarrow> [DemuxCancelAndFree i d]"
  have res: "cleanup_entry eng cb i e = Some (zero_entry, ?tr @ ev2 @ ?fr)"
  proof -
    from False obtain u where "url e = Some u" by auto
    with j show ?thesis by (simp add: cleanup_entry_def split_beta request_cancel_token)
  qed
  obtain ws where ws: "ev2 = (if thread_running e then ThreadJoin i # ws else [])"
      "\<forall>ev \<in> set ws. is_worker_event ev"
  proof (cases "thread_running e")
    case True
    with ev obtain ws' where "ev2 = ThreadJoin i # ws'" "\<forall>ev \<in> set ws'. is_worker_event ev"
      by auto
    with True that show ?thesis by simp
  next
    case F: False
    with ev have "ev2 = []" by simp
    with F that [of "[]"] show ?thesis by simp
  qed
  have fr: "case demuxer e of
              Some d \<Rightarrow> ?fr = [DemuxCancelAndFree i d]
            | None \<Rightarrow> ?fr = [] \<or> (thread_running e \<and> (\<exists>d. ?fr = [DemuxCancelAndFree i d]))"
  proof (cases "demuxer e")
    case None
    show ?thesis
    proof (cases "thread_running e")
      case True
      with None show ?thesis by (cases "demuxer e2") simp_all
    next
      case F: False
      with ev have "e2 = ?e1" by simp
      with None show ?thesis by simp
    qed
  next
    case (Some d0)
    with d have "demuxer e2 = Some d0" by simp
    with Some show ?thesis by simp
  qed
  show ?thesis
    using False res ws fr by (intro exI [of _ "?tr @ ev2 @ ?fr"]) auto
qed

lemma find_entry_from_None_iff:
  "find_entry_from u es n = None \<longleftrightarrow> (\<forall>e \<in> set es. url e \<noteq> Some u)"
  by (induction es arbitrary: n) auto

lemma find_entry_from_SomeD:
  "find_entry_from u es n = Some j \<Longrightarrow>
   \<exists>p < length es. j = n + p \<and> url (es ! p) = Some u \<and> (\<forall>m < p. url (es ! m) \<noteq> Some u)"
proof (induction es arbitrary: n)
  case Nil
  then show ?case by simp
next
  case (Cons e es)
  show ?case
  proof (cases "url e = Some u")
    case True
    with Cons.prems show ?thesis by (intro exI [of _ 0]) simp
  next
    case False
    with Cons.prems have "find_entry_from u es (Suc n) = Some j" by simp
    from Cons.IH [OF this] obtain p where p: "p < length es" "j = Suc n + p"
      "url (es ! p) = Some u" "\<forall>m < p. url (es ! m) \<noteq> Some u" by blast
    with False show ?thesis
      by (intro exI [of _ "Suc p"]) (auto simp: less_Suc_eq_0_disj)
  qed
qed

lemma find_entry_locked_None_iff:
  "find_entry_locked u c = None \<longleftrightarrow> (\<forall>e \<in> set (entries c). url e \<noteq> Some u)"
  by (simp add: find_entry_locked_def find_entry_from_None_iff)

lemma find_entry_locked_SomeD:
  "find_entry_locked u c = Some i \<Longrightarrow>
   i < length (entries c) \<and> url (entries c ! i) = Some u
   \<and> (\<forall>m < i. url (entries c ! m) \<noteq> Some u)"
  using find_entry_from_SomeD [of u "entries c" 0 i] by (auto simp: find_entry_locked_def)

lemma find_entry_locked_unique:
  assumes "unique_urls (entries c)" "i < length (entries c)" "url (entries c ! i) = Some u"
  shows "find_entry_locked u c = Some i"
proof (cases "find_entry_locked u c")
  case None
  with assms(2,3) show ?thesis
    by (auto simp: find_entry_locked_None_iff dest: nth_mem)
next
  case (Some j)
  from find_entry_locked_SomeD [OF this] assms show ?thesis
    using Some by (auto simp: unique_urls_def)
qed

lemma first_free_from_None_iff:
  "first_free_from es n = None \<longleftrightarrow> (\<forall>e \<in> set es. url e \<noteq> None)"
  by (induction es arbitrary: n) auto

lemma first_free_from_SomeD:
  "first_free_from es n = Some j \<Longrightarrow>
   \<exists>p < length es. j = n + p \<and> url (es ! p) = None \<and> (\<forall>m < p. url (es ! m) \<noteq> None)"
proof (induction es arbitrary: n)
  case Nil
  then show ?case by simp
next
  case (Cons e es)
  show ?case
  proof (cases "url e = None")
    case True
    with Cons.prems show ?thesis by (intro exI [of _ 0]) simp
  next
    case False
    with Cons.prems have "first_free_from es (Suc n) = Some j" by simp
    from Cons.IH [OF this] obtain p where p: "p < length es" "j = Suc n + p"
      "url (es ! p) = None" "\<forall>m < p. url (es ! m) \<noteq> None" by blast
    with False show ?thesis
      by (intro exI [of _ "Suc p"]) (auto simp: less_Suc_eq_0_disj)
  qed
qed

lemma oldest_from_Some:
  "oldest_from es n (Some k0) t = Some j \<Longrightarrow>
   (j = k0 \<and> (\<forall>e \<in> set es. t \<le> create_time e))
   \<or> (\<exists>p < length es. j = n + p \<and> create_time (es ! p) < t
         \<and> (\<forall>m < length es. create_time (es ! p) \<le> create_time (es ! m))
         \<and> (\<forall>m < p. create_time (es ! p) < create_time (es ! m)))"
proof (induction es arbitrary: n k0 t)
  case Nil
  then show ?case by simp
next
  case (Cons e es)
  show ?case
  proof (cases "create_time e < t")
    case True
    with Cons.prems have r: "oldest_from es (Suc n) (Some n) (create_time e) = Some j" by simp
    from Cons.IH [OF r] show ?thesis
    proof
      assume a: "j = n \<and> (\<forall>x \<in> set es. create_time e \<le> create_time x)"
      have "\<forall>m < length (e # es). create_time ((e # es) ! 0) \<le> create_time ((e # es) ! m)"
        using a by (auto simp: less_Suc_eq_0_disj)
      with a True show ?thesis by (intro disjI2 exI [of _ 0]) simp
    next
      assume "\<exists>p < length es. j = Suc n + p \<and> create_time (es ! p) < create_time e
         \<and> (\<forall>m < length es. create_time (es ! p) \<le> create_time (es ! m))
         \<and> (\<forall>m < p. create_time (es ! p) < create_time (es ! m))"
      then obtain p where p: "p < length es" "j = Suc n + p" "create_time (es ! p) < create_time e"
        "\<forall>m < length es. create_time (es ! p) \<le> create_time (es ! m)"
        "\<forall>m < p. create_time (es ! p) < create_time (es ! m)" by blast
      with True show ?thesis
        by (intro disjI2 exI [of _ "Suc p"]) (auto simp: less_Suc_eq_0_disj)
    qed
  next
    case False
    with Cons.prems have r: "oldest_from es (Suc n) (Some k0) t = Some j" by simp
    from Cons.IH [OF r] show ?thesis
    proof
      assume "j = k0 \<and> (\<forall>x \<in> set es. t \<le> create_time x)"
      with False show ?thesis by auto
    next
      assume "\<exists>p < length es. j = Suc n + p \<and> create_time (es ! p) < t
         \<and> (\<forall>m < length es. create_time (es ! p) \<le> create_time (es ! m))
         \<and> (\<forall>m < p. create_time (es ! p) < create_time (es ! m))"
      then obtain p where p: "p < length es" "j = Suc n + p" "create_time (es ! p) < t"
        "\<forall>m < length es. create_time (es ! p) \<le> create_time (es ! m)"
        "\<forall>m < p. create_time (es ! p) < create_time (es ! m)" by blast
      with False show ?thesis
        by (intro disjI2 exI [of _ "Suc p"]) (auto simp: less_Suc_eq_0_disj)
    qed
  qed
qed

lemma oldest_from_not_None: "oldest_from es n (Some k0) t \<noteq> None"
  by (induction es arbitrary: n k0 t) auto

lemma oldest_from_is_oldest:
  assumes "es \<noteq> []"
  shows "\<exists>k. oldest_from es 0 None 0 = Some k \<and> is_oldest es k"
proof -
  from assms obtain e es' where es: "es = e # es'" by (cases es) auto
  obtain j where j: "oldest_from es' (Suc 0) (Some 0) (create_time e) = Some j"
    using oldest_from_not_None [of es' "Suc 0" 0 "create_time e"] by auto
  from oldest_from_Some [OF j] have "is_oldest (e # es') j"
  proof
    assume "j = 0 \<and> (\<forall>x \<in> set es'. create_time e \<le> create_time x)"
    then show ?thesis by (auto simp: is_oldest_def less_Suc_eq_0_disj)
  next
    assume "\<exists>p < length es'. j = Suc 0 + p \<and> create_time (es' ! p) < create_time e
         \<and> (\<forall>m < length es'. create_time (es' ! p) \<le> create_time (es' ! m))
         \<and> (\<forall>m < p. create_time (es' ! p) < create_time (es' ! m))"
    then show ?thesis by (auto simp: is_oldest_def less_Suc_eq_0_disj)
  qed
  with j es show ?thesis by simp
qed


lemma unique_urls_update:
  assumes "unique_urls es" "k < length es"
    and "url e = None \<or> url e = url (es ! k)
         \<or> (\<forall>j < length es. j \<noteq> k \<longrightarrow> url (es ! j) \<noteq> url e)"
  shows "unique_urls (es[k := e])"
  using assms unfolding unique_urls_def
  by (auto simp: nth_list_update) metis+

lemma zero_entry_ok:
  "entry_inv zero_entry \<and> (url zero_entry \<noteq> None \<longrightarrow> thread_running zero_entry)"
  by simp

lemma cache_inv_update:
  assumes "cache_inv c" "k < length (entries c)" "entry_inv e \<and> (url e \<noteq> None \<longrightarrow> thread_running e)"
    and "url e = None \<or> url e = url (entries c ! k)
         \<or> (initialized c \<and> (\<forall>j < length (entries c). j \<noteq> k \<longrightarrow> url (entries c ! j) \<noteq> url e))"
  shows "cache_inv (c\<lparr> entries := (entries c)[k := e] \<rparr>)"
proof -
  have u: "unique_urls ((entries c)[k := e])"
    using assms by (intro unique_urls_update) (auto simp: cache_inv_def)
  have s: "\<forall>x \<in> set ((entries c)[k := e]). entry_inv x \<and> (url x \<noteq> None \<longrightarrow> thread_running x)"
    using assms(1,3) set_update_subset_insert [of "entries c" k e] by (auto simp: cache_inv_def)
  have i: "\<not> initialized c \<longrightarrow> (\<forall>x \<in> set ((entries c)[k := e]). url x = None)"
    using assms(1,2,4) set_update_subset_insert [of "entries c" k e]
    by (auto simp: cache_inv_def dest: nth_mem)
  show ?thesis using assms(1) u s i by (simp add: cache_inv_def)
qed

lemma get_demuxer_absent:
  "mpv_preload_get_demuxer eng None c = Some (None, c, [])"
  by (simp add: mpv_preload_get_demuxer_def)

lemma get_demuxer_fail:
  assumes "\<forall>i. \<not> claimable u c i"
  shows "\<exists>evs. mpv_preload_get_demuxer eng (Some u) c = Some (None, c, evs)
           \<and> (evs = [] \<or> evs = [MutexLock, MutexUnlock])"
  using assms
  by (auto simp: mpv_preload_get_demuxer_def claimable_def Let_def split: option.splits)

lemma get_demuxer_success:
  assumes inv: "cache_inv c" and cl: "claimable u c i"
  shows "\<exists>e4 ws st d. mpv_preload_get_demuxer eng (Some u) c =
            Some (Some d, c\<lparr> entries := (entries c)[i := e4] \<rparr>,
                  [MutexLock]
                  @ (if thread_running (entries c ! i)
                     then [MutexUnlock, ThreadJoin i] @ ws @ [MutexLock] else [])
                  @ st @ [MutexUnlock])
           \<and> demuxer (entries c ! i) = Some d
           \<and> url e4 = None \<and> demuxer e4 = None \<and> global e4 = None \<and> cancel e4 = None
           \<and> status e4 = MPV_PRELOAD_STATUS_NONE \<and> \<not> thread_running e4
           \<and> cancel_requested e4 \<and> entry_inv e4
           \<and> (\<forall>ev \<in> set ws. is_worker_event ev)
           \<and> (\<forall>ev \<in> set st. (\<exists>g. ev = TallocStealGlobal i g) \<or> ev = TallocStealCancel i)"
proof -
  let ?e = "entries c ! i"
  let ?e1 = "?e\<lparr> cancel_requested := True \<rparr>"
  from cl have f: "find_entry_locked u c = Some i" and ini: "initialized c"
    and s1: "status ?e \<noteq> MPV_PRELOAD_STATUS_NONE" and s2: "status ?e \<noteq> MPV_PRELOAD_STATUS_ERROR"
    and dn: "demuxer ?e \<noteq> None"
    by (simp_all add: claimable_def)
  from find_entry_locked_SomeD [OF f] have il: "i < length (entries c)" by simp
  then have einv: "entry_inv ?e" using inv by (simp add: cache_inv_def)
  then have e1inv: "entry_inv ?e1" by (rule set_flag_inv)
  from dn obtain d where d: "demuxer ?e = Some d" by auto
  define steal where "steal x = (case global x of None \<Rightarrow> [] | Some g \<Rightarrow> [TallocStealGlobal i g])
                                    @ (case cancel x of None \<Rightarrow> [] | Some t \<Rightarrow> [TallocStealCancel i])"
    for x :: preload_entry
  have steal_ok: "\<forall>ev \<in> set (steal x). (\<exists>g. ev = TallocStealGlobal i g) \<or> ev = TallocStealCancel i" for x
    by (auto simp: steal_def split: option.splits)
  show ?thesis
  proof (cases "thread_running ?e")
    case True
    from mp_thread_join_stops [OF _ e1inv, of eng "g_preload_callback c" i]
    obtain e2 ws where j: "mp_thread_join eng (g_preload_callback c) i ?e1 = Some (e2, ThreadJoin i # ws)"
      and p: "entry_inv e2" "url e2 = url ?e1" "cancel_requested e2"
        "demuxer ?e1 \<noteq> None \<longrightarrow> demuxer e2 = demuxer ?e1"
        "thread e2 = T_exited \<or> thread e2 = T_none" "\<forall>ev \<in> set ws. is_worker_event ev"
      by auto
    let ?e4 = "e2\<lparr> thread_running := False, demuxer := None, url := None,
                   status := MPV_PRELOAD_STATUS_NONE, global := None, cancel := None \<rparr>"
    have d2: "demuxer e2 = Some d" using p(4) d by simp
    have r: "mpv_preload_get_demuxer eng (Some u) c =
               Some (Some d, c\<lparr> entries := (entries c)[i := ?e4] \<rparr>,
                 [MutexLock] @ ([MutexUnlock, ThreadJoin i] @ ws @ [MutexLock])
                 @ steal (e2\<lparr> thread_running := False, demuxer := None \<rparr>) @ [MutexUnlock])"
      using f ini s1 s2 d True j d2
      by (simp add: mpv_preload_get_demuxer_def Let_def steal_def)
    have i4: "entry_inv ?e4" using p(5) by (auto simp: entry_inv_def)
    show ?thesis
      using r True d p(3,6) i4 steal_ok
      by (intro exI [of _ ?e4] exI [of _ ws]
            exI [of _ "steal (e2\<lparr> thread_running := False, demuxer := None \<rparr>)"] exI [of _ d]) simp
  next
    case False
    let ?e4 = "?e1\<lparr> demuxer := None, url := None,
                   status := MPV_PRELOAD_STATUS_NONE, global := None, cancel := None \<rparr>"
    have r: "mpv_preload_get_demuxer eng (Some u) c =
               Some (Some d, c\<lparr> entries := (entries c)[i := ?e4] \<rparr>,
                 [MutexLock] @ steal (?e1\<lparr> demuxer := None \<rparr>) @ [MutexUnlock])"
      using f ini s1 s2 d False
      by (simp add: mpv_preload_get_demuxer_def Let_def steal_def)
    have "thread ?e = T_exited \<or> thread ?e = T_none"
      using einv False by (auto simp: entry_inv_def split: thread_state.splits)
    then have i4: "entry_inv ?e4" using False by (auto simp: entry_inv_def)
    show ?thesis
      using r False d i4 steal_ok
      by (intro exI [of _ ?e4] exI [of _ "[]"]
            exI [of _ "steal (?e1\<lparr> demuxer := None \<rparr>)"] exI [of _ d]) simp
  qed
qed

lemma unique_urls_Nil [simp]: "unique_urls []"
  by (simp add: unique_urls_def)

lemma unique_urls_Cons [simp]:
  "unique_urls (e # es) \<longleftrightarrow>
     (url e \<noteq> None \<longrightarrow> (\<forall>x \<in> set es. url x \<noteq> url e)) \<and> unique_urls es"
  (is "?L \<longleftrightarrow> ?A \<and> ?B")
proof
  assume l: ?L
  have a: ?A
  proof (intro impI ballI)
    fix x assume n: "url e \<noteq> None" and x: "x \<in> set es"
    then obtain m where m: "m < length es" "es ! m = x" by (auto simp: in_set_conv_nth)
    show "url x \<noteq> url e"
    proof
      assume "url x = url e"
      with l n m have "(0::nat) = Suc m"
        unfolding unique_urls_def by (metis length_Cons nth_Cons_0 nth_Cons_Suc not_less_eq zero_less_Suc)
      then show False by simp
    qed
  qed
  have b: ?B
    unfolding unique_urls_def
  proof (intro allI impI)
    fix i j assume "i < length es" "j < length es" "url (es ! i) \<noteq> None \<and> url (es ! i) = url (es ! j)"
    with l have "Suc i = Suc j"
      unfolding unique_urls_def by (metis length_Cons nth_Cons_Suc not_less_eq)
    then show "i = j" by simp
  qed
  from a b show "?A \<and> ?B" ..
next
  assume ab: "?A \<and> ?B"
  show ?L
    unfolding unique_urls_def
  proof (intro allI impI)
    fix i j assume i: "i < length (e # es)" and j: "j < length (e # es)"
      and h: "url ((e # es) ! i) \<noteq> None \<and> url ((e # es) ! i) = url ((e # es) ! j)"
    show "i = j"
    proof (cases i)
      case 0
      show ?thesis
      proof (cases j)
        case j0: 0
        with 0 show ?thesis by simp
      next
        case (Suc m)
        with 0 h j ab show ?thesis by (auto dest: nth_mem)
      qed
    next
      case (Suc n)
      show ?thesis
      proof (cases j)
        case 0
        with Suc h i ab show ?thesis by (auto dest: nth_mem)
      next
        case jm: (Suc m)
        with Suc h i j ab show ?thesis by (auto simp: unique_urls_def)
      qed
    qed
  qed
qed

lemma cache_inv_one_ready: "cache_inv one_ready"
  by (simp add: cache_inv_def one_ready_def MPV_PRELOAD_MAX_ENTRIES_def entry_inv_def
        ready_entry_def)

lemma claimable_iff:
  assumes "cache_inv c"
  shows "(\<exists>i. claimable u c i) \<longleftrightarrow>
         (\<exists>i < length (entries c). url (entries c ! i) = Some u
            \<and> demuxer (entries c ! i) \<noteq> None
            \<and> status (entries c ! i) \<noteq> MPV_PRELOAD_STATUS_NONE
            \<and> status (entries c ! i) \<noteq> MPV_PRELOAD_STATUS_ERROR)"
proof
  assume "\<exists>i. claimable u c i"
  then obtain i where "claimable u c i" ..
  then show "\<exists>i < length (entries c). url (entries c ! i) = Some u
            \<and> demuxer (entries c ! i) \<noteq> None
            \<and> status (entries c ! i) \<noteq> MPV_PRELOAD_STATUS_NONE
            \<and> status (entries c ! i) \<noteq> MPV_PRELOAD_STATUS_ERROR"
    using find_entry_locked_SomeD [of u c i] by (auto simp: claimable_def)
next
  assume "\<exists>i < length (entries c). url (entries c ! i) = Some u
            \<and> demuxer (entries c ! i) \<noteq> None
            \<and> status (entries c ! i) \<noteq> MPV_PRELOAD_STATUS_NONE
            \<and> status (entries c ! i) \<noteq> MPV_PRELOAD_STATUS_ERROR"
  then obtain i where i: "i < length (entries c)" "url (entries c ! i) = Some u"
     "demuxer (entries c ! i) \<noteq> None" "status (entries c ! i) \<noteq> MPV_PRELOAD_STATUS_NONE"
     "status (entries c ! i) \<noteq> MPV_PRELOAD_STATUS_ERROR" by blast
  have "find_entry_locked u c = Some i"
    using assms i(1,2) by (intro find_entry_locked_unique) (simp_all add: cache_inv_def)
  moreover have "initialized c"
    using assms i(1,2) by (auto simp: cache_inv_def dest: nth_mem)
  ultimately show "\<exists>i. claimable u c i" using i by (auto simp: claimable_def)
qed

lemma get_demuxer_returns:
  assumes "cache_inv c"
  shows "\<exists>r. mpv_preload_get_demuxer eng u c = Some r"
proof (cases u)
  case None
  then show ?thesis by (simp add: get_demuxer_absent)
next
  case (Some L)
  show ?thesis
  proof (cases "\<exists>i. claimable L c i")
    case True
    then obtain i where "claimable L c i" ..
    from get_demuxer_success [OF assms this, of eng] Some show ?thesis by blast
  next
    case False
    then have "\<forall>i. \<not> claimable L c i" by simp
    from get_demuxer_fail [OF this, of eng] Some show ?thesis by blast
  qed
qed

lemma get_demuxer_null_unchanged:
  assumes "cache_inv c" "mpv_preload_get_demuxer eng u c = Some (None, c1, tr)"
  shows "c1 = c"
proof (cases u)
  case None
  with assms(2) show ?thesis by (simp add: get_demuxer_absent)
next
  case (Some L)
  show ?thesis
  proof (cases "\<exists>i. claimable L c i")
    case True
    then obtain i where "claimable L c i" ..
    from get_demuxer_success [OF assms(1) this, of eng] Some assms(2) show ?thesis by auto
  next
    case False
    then have "\<forall>i. \<not> claimable L c i" by simp
    from get_demuxer_fail [OF this, of eng] Some assms(2) show ?thesis by auto
  qed
qed

lemma get_demuxer_nonnull_iff:
  assumes "cache_inv c"
  shows "(\<exists>d c1 tr. mpv_preload_get_demuxer eng (Some L) c = Some (Some d, c1, tr))
         \<longleftrightarrow> (\<exists>i. claimable L c i)"
proof
  assume "\<exists>d c1 tr. mpv_preload_get_demuxer eng (Some L) c = Some (Some d, c1, tr)"
  then obtain d c1 tr where r: "mpv_preload_get_demuxer eng (Some L) c = Some (Some d, c1, tr)"
    by blast
  show "\<exists>i. claimable L c i"
  proof (rule ccontr)
    assume "\<not> (\<exists>i. claimable L c i)"
    then have "\<forall>i. \<not> claimable L c i" by simp
    from get_demuxer_fail [OF this, of eng] r show False by auto
  qed
next
  assume "\<exists>i. claimable L c i"
  then obtain i where "claimable L c i" ..
  from get_demuxer_success [OF assms this, of eng]
  show "\<exists>d c1 tr. mpv_preload_get_demuxer eng (Some L) c = Some (Some d, c1, tr)" by blast
qed

lemma cache_inv_ensure_initialized: "cache_inv c \<Longrightarrow> cache_inv (ensure_initialized c)"
  by (simp add: cache_inv_def ensure_initialized_def)

lemma ensure_initialized_sel [simp]:
  "entries (ensure_initialized c) = entries c"
  "initialized (ensure_initialized c)"
  "g_preload_callback (ensure_initialized c) = g_preload_callback c"
  by (simp_all add: ensure_initialized_def)

lemma ensure_initialized_id: "initialized c \<Longrightarrow> ensure_initialized c = c"
  by (simp add: ensure_initialized_def)

lemma find_entry_locked_ensure [simp]:
  "find_entry_locked u (ensure_initialized c) = find_entry_locked u c"
  by (simp add: find_entry_locked_def)

lemma cancel_absent: "mpv_preload_cancel eng None c = Some (- 1, c, [])"
  by (simp add: mpv_preload_cancel_def)

lemma cancel_not_found:
  assumes "\<not> initialized c \<or> find_entry_locked u c = None"
  shows "\<exists>evs. mpv_preload_cancel eng (Some u) c = Some (- 1, c, evs)
           \<and> (evs = [] \<or> evs = [MutexLock, MutexUnlock])"
  using assms by (auto simp: mpv_preload_cancel_def)

lemma cancel_found:
  assumes inv: "cache_inv c" and ini: "initialized c" and f: "find_entry_locked u c = Some i"
  shows "\<exists>ws tr2 fr. mpv_preload_cancel eng (Some u) c =
            Some (0, c\<lparr> entries := (entries c)[i := zero_entry] \<rparr>,
                  [MutexLock]
                  @ (case cancel (entries c ! i) of None \<Rightarrow> [] | Some t \<Rightarrow> [CancelTrigger i])
                  @ [MutexUnlock]
                  @ (if thread_running (entries c ! i) then ThreadJoin i # ws else [])
                  @ [MutexLock] @ tr2 @ fr @ [MutexUnlock])
           \<and> (\<forall>ev \<in> set ws. is_worker_event ev)
           \<and> (tr2 = [] \<or> tr2 = [CancelTrigger i])
           \<and> (fr = [] \<or> (\<exists>d. fr = [DemuxCancelAndFree i d]))"
proof -
  let ?e = "entries c ! i"
  let ?e1 = "fst (request_cancel i ?e)"
  from find_entry_locked_SomeD [OF f] have il: "i < length (entries c)"
    and u: "url ?e = Some u" by simp_all
  have einv: "entry_inv ?e" using inv il by (simp add: cache_inv_def)
  have c1: "cancel_requested ?e1" by simp
  have i1: "entry_inv ?e1" using einv by (rule request_cancel_inv)
  from join_if_running_stops [OF c1 i1, of eng "g_preload_callback c" i]
  obtain e2 ev2 where j: "join_if_running eng (g_preload_callback c) i ?e1 = Some (e2, ev2)"
    and p: "entry_inv e2" "url e2 = url ?e1" "\<not> thread_running e2"
    and ev: "if thread_running ?e1
               then \<exists>ws. ev2 = ThreadJoin i # ws \<and> (\<forall>ev \<in> set ws. is_worker_event ev)
               else ev2 = [] \<and> e2 = ?e1"
    by blast
  from cleanup_entry_returns [OF p(1), of eng "g_preload_callback c" i] p(2,3) u
  obtain ev3 fr where cl: "cleanup_entry eng (g_preload_callback c) i e2 = Some (zero_entry, ev3)"
    and e3: "ev3 = (case cancel e2 of None \<Rightarrow> [] | Some t \<Rightarrow> [CancelTrigger i]) @ fr"
    and fr: "case demuxer e2 of Some d \<Rightarrow> fr = [DemuxCancelAndFree i d] | None \<Rightarrow> fr = []"
    by (auto split: option.splits)
  obtain ws where ws: "ev2 = (if thread_running ?e then ThreadJoin i # ws else [])"
      "\<forall>ev \<in> set ws. is_worker_event ev"
  proof (cases "thread_running ?e")
    case True
    with ev obtain ws' where "ev2 = ThreadJoin i # ws'" "\<forall>ev \<in> set ws'. is_worker_event ev"
      by auto
    with True that show ?thesis by simp
  next
    case False
    with ev have "ev2 = []" by simp
    with False that [of "[]"] show ?thesis by simp
  qed
  let ?tr2 = "case cancel e2 of None \<Rightarrow> [] | Some t \<Rightarrow> [CancelTrigger i]"
  have r: "mpv_preload_cancel eng (Some u) c =
            Some (0, c\<lparr> entries := (entries c)[i := zero_entry] \<rparr>,
                  [MutexLock]
                  @ (case cancel ?e of None \<Rightarrow> [] | Some t \<Rightarrow> [CancelTrigger i])
                  @ [MutexUnlock] @ ev2 @ [MutexLock] @ ?tr2 @ fr @ [MutexUnlock])"
    using ini f j cl e3
    by (simp add: mpv_preload_cancel_def split_beta request_cancel_token)
  have t2: "?tr2 = [] \<or> ?tr2 = [CancelTrigger i]" by (simp split: option.splits)
  have f2: "fr = [] \<or> (\<exists>d. fr = [DemuxCancelAndFree i d])"
    using fr by (auto split: option.splits)
  show ?thesis
    using r ws t2 f2 by (intro exI [of _ ws] exI [of _ ?tr2] exI [of _ fr]) simp
qed

lemma start_rejected:
  "u = None \<or> u = Some [] \<Longrightarrow> mpv_preload_start eng now created u opts c = Some (- 1, c, [])"
  by (auto simp: mpv_preload_start_def)

lemma start_existing:
  "u \<noteq> [] \<Longrightarrow> find_entry_locked u c = Some i \<Longrightarrow>
   mpv_preload_start eng now created (Some u) opts c
     = Some (0, ensure_initialized c, [MutexLock, MutexUnlock])"
  by (simp add: mpv_preload_start_def Let_def)

lemma find_free_slot_returns:
  assumes inv: "cache_inv c"
  shows "\<exists>k c1 evs. find_free_slot_locked eng c = Some (Some k, c1, evs)
           \<and> k < length (entries c)
           \<and> ((first_free_from (entries c) 0 = Some k \<and> c1 = c \<and> evs = [])
              \<or> (first_free_from (entries c) 0 = None \<and> is_oldest (entries c) k
                  \<and> c1 = c\<lparr> entries := (entries c)[k := zero_entry] \<rparr>
                  \<and> cleanup_entry eng (g_preload_callback c) k (entries c ! k)
                      = Some (zero_entry, evs)))"
proof (cases "first_free_from (entries c) 0")
  case (Some k)
  from first_free_from_SomeD [OF Some] have "k < length (entries c)" by auto
  with Some show ?thesis by (simp add: find_free_slot_locked_def)
next
  case None
  have ne: "entries c \<noteq> []" using inv by (auto simp: cache_inv_def MPV_PRELOAD_MAX_ENTRIES_def)
  from oldest_from_is_oldest [OF ne] obtain k
    where k: "oldest_from (entries c) 0 None 0 = Some k" "is_oldest (entries c) k" by blast
  then have kl: "k < length (entries c)" by (simp add: is_oldest_def)
  have einv: "entry_inv (entries c ! k)" using inv kl by (simp add: cache_inv_def)
  have occ: "url (entries c ! k) \<noteq> None"
    using None kl by (auto simp: first_free_from_None_iff dest: nth_mem)
  from cleanup_entry_returns [OF einv, of eng "g_preload_callback c" k] occ
  obtain evs where "cleanup_entry eng (g_preload_callback c) k (entries c ! k)
                      = Some (zero_entry, evs)" by auto
  with None k kl show ?thesis by (simp add: find_free_slot_locked_def)
qed

lemma start_new:
  assumes inv: "cache_inv c" and ne: "u \<noteq> []" and nf: "find_entry_locked u c = None"
  shows "\<exists>k c1 evs. find_free_slot_locked eng (ensure_initialized c) = Some (Some k, c1, evs)
           \<and> mpv_preload_start eng now created (Some u) opts c =
               Some (if created then 0 else - 1,
                     c1\<lparr> entries := (entries c1)
                           [k := (if created
                                  then (init_entry (entries c1 ! k) u now opts)
                                         \<lparr> thread := T_start, thread_running := True \<rparr>
                                  else (init_entry (entries c1 ! k) u now opts)
                                         \<lparr> url := None, status := MPV_PRELOAD_STATUS_NONE \<rparr>)] \<rparr>,
                     [MutexLock] @ evs @ (if created then [ThreadCreate k] else [])
                     @ [MutexUnlock])"
proof -
  from find_free_slot_returns [OF cache_inv_ensure_initialized [OF inv], of eng]
  obtain k c1 evs where
    "find_free_slot_locked eng (ensure_initialized c) = Some (Some k, c1, evs)" by blast
  with ne nf show ?thesis
    by (simp add: mpv_preload_start_def Let_def init_entry_def)
qed

lemma unique_urls_all_free: "(\<forall>e \<in> set es. url e = None) \<Longrightarrow> unique_urls es"
  by (auto simp: unique_urls_def)

lemma clear_all_request_props:
  "length (fst (clear_all_request es n)) = length es
   \<and> (\<forall>p < length es.
         url (fst (clear_all_request es n) ! p) = url (es ! p)
         \<and> thread_running (fst (clear_all_request es n) ! p) = thread_running (es ! p)
         \<and> (url (es ! p) \<noteq> None \<longrightarrow> cancel_requested (fst (clear_all_request es n) ! p))
         \<and> (entry_inv (es ! p) \<longrightarrow> entry_inv (fst (clear_all_request es n) ! p)))"
proof (induction es arbitrary: n)
  case Nil
  then show ?case by simp
next
  case (Cons e es)
  from Cons.IH [of "Suc n"] show ?case
    by (auto simp: split_beta less_Suc_eq_0_disj request_cancel_inv)
qed

lemma clear_all_request_events:
  "set (snd (clear_all_request es n))
     = {CancelTrigger (n + p) | p. p < length es \<and> url (es ! p) \<noteq> None \<and> cancel (es ! p) \<noteq> None}"
proof (induction es arbitrary: n)
  case Nil
  then show ?case by simp
next
  case (Cons e es)
  have "{CancelTrigger (n + p) | p. p < length (e # es) \<and> url ((e # es) ! p) \<noteq> None
            \<and> cancel ((e # es) ! p) \<noteq> None}
        = (if url e \<noteq> None \<and> cancel e \<noteq> None then {CancelTrigger n} else {})
          \<union> {CancelTrigger (Suc n + p) | p. p < length es \<and> url (es ! p) \<noteq> None
                \<and> cancel (es ! p) \<noteq> None}"
    by (auto simp: less_Suc_eq_0_disj)
  with Cons.IH [of "Suc n"] show ?case
    by (auto simp: split_beta request_cancel_token split: option.splits)
qed

lemma clear_all_join_returns:
  assumes "\<forall>e \<in> set es. entry_inv e \<and> (thread_running e \<longrightarrow> cancel_requested e)"
  shows "\<exists>es1 evs. clear_all_join eng cb es n = Some (es1, evs)
           \<and> length es1 = length es
           \<and> (\<forall>e \<in> set es1. entry_inv e \<and> \<not> thread_running e)
           \<and> (\<forall>p < length es. url (es1 ! p) = url (es ! p))
           \<and> (\<forall>ev \<in> set evs. (\<exists>k. ev = ThreadJoin k) \<or> is_worker_event ev)"
  using assms
proof (induction es arbitrary: n)
  case Nil
  then show ?case by simp
next
  case (Cons e es)
  then have einv: "entry_inv e" and cr: "thread_running e \<longrightarrow> cancel_requested e"
    and rest: "\<forall>e \<in> set es. entry_inv e \<and> (thread_running e \<longrightarrow> cancel_requested e)"
    by simp_all
  from Cons.IH [OF rest, of "Suc n"] obtain es1 evs
    where r: "clear_all_join eng cb es (Suc n) = Some (es1, evs)"
      and l: "length es1 = length es"
      and i: "\<forall>e \<in> set es1. entry_inv e \<and> \<not> thread_running e"
      and u: "\<forall>p < length es. url (es1 ! p) = url (es ! p)"
      and w: "\<forall>ev \<in> set evs. (\<exists>k. ev = ThreadJoin k) \<or> is_worker_event ev"
    by blast
  show ?case
  proof (cases "thread_running e")
    case True
    with cr have "cancel_requested e" by simp
    from join_if_running_stops [OF this einv, of eng cb n] True
    obtain e1 ws where j: "join_if_running eng cb n e = Some (e1, ThreadJoin n # ws)"
      and p: "entry_inv e1" "url e1 = url e" "\<not> thread_running e1"
        "\<forall>ev \<in> set ws. is_worker_event ev"
      by auto
    show ?thesis
      using j p r l i u w
      by (intro exI [of _ "e1 # es1"] exI [of _ "(ThreadJoin n # ws) @ evs"])
         (auto simp: less_Suc_eq_0_disj)
  next
    case False
    then have j: "join_if_running eng cb n e = Some (e, [])" by (simp add: join_if_running_def)
    show ?thesis
      using j False einv r l i u w
      by (intro exI [of _ "e # es1"] exI [of _ evs]) (auto simp: less_Suc_eq_0_disj)
  qed
qed

lemma clear_all_cleanup_returns:
  assumes "\<forall>e \<in> set es. entry_inv e"
  shows "\<exists>es1 evs. clear_all_cleanup eng cb es n = Some (es1, evs)
           \<and> length es1 = length es
           \<and> (\<forall>e \<in> set es1. entry_inv e \<and> url e = None)"
  using assms
proof (induction es arbitrary: n)
  case Nil
  then show ?case by simp
next
  case (Cons e es)
  then have einv: "entry_inv e" and rest: "\<forall>e \<in> set es. entry_inv e" by simp_all
  from Cons.IH [OF rest, of "Suc n"] obtain es1 evs
    where r: "clear_all_cleanup eng cb es (Suc n) = Some (es1, evs)"
      "length es1 = length es" "\<forall>e \<in> set es1. entry_inv e \<and> url e = None" by blast
  from cleanup_entry_returns [OF einv, of eng cb n]
  obtain ev1 where c: "cleanup_entry eng cb n e = Some (if url e = None then e else zero_entry, ev1)"
    by blast
  show ?case
    using r c einv
    by (intro exI [of _ "(if url e = None then e else zero_entry) # es1"] exI [of _ "ev1 @ evs"])
       auto
qed

lemma clear_all_returns:
  assumes inv: "cache_inv c"
  shows "\<exists>c1 tr. mpv_preload_clear_all eng c = Some (c1, tr)
           \<and> (\<forall>e \<in> set (entries c1). url e = None) \<and> cache_inv c1
           \<and> initialized c1 = initialized c \<and> g_preload_callback c1 = g_preload_callback c"
proof (cases "initialized c")
  case False
  with inv show ?thesis by (simp add: mpv_preload_clear_all_def cache_inv_def)
next
  case True
  let ?es1 = "fst (clear_all_request (entries c) 0)"
  let ?ev1 = "snd (clear_all_request (entries c) 0)"
  have l1: "length ?es1 = length (entries c)"
    using clear_all_request_props [of "entries c" 0] by simp
  have a1: "\<forall>e \<in> set ?es1. entry_inv e \<and> (thread_running e \<longrightarrow> cancel_requested e)"
  proof
    fix e assume "e \<in> set ?es1"
    then obtain p where p: "p < length ?es1" "?es1 ! p = e" by (auto simp: in_set_conv_nth)
    with l1 have pl: "p < length (entries c)" by simp
    then have "entry_inv (entries c ! p)" using inv by (simp add: cache_inv_def)
    then have u: "thread_running (entries c ! p) \<longrightarrow> url (entries c ! p) \<noteq> None"
      by (auto simp: entry_inv_def)
    from clear_all_request_props [of "entries c" 0] pl p(2) \<open>entry_inv (entries c ! p)\<close> u
    show "entry_inv e \<and> (thread_running e \<longrightarrow> cancel_requested e)" by auto
  qed
  from clear_all_join_returns [OF a1, of eng "g_preload_callback c" 0]
  obtain es2 ev2 where j: "clear_all_join eng (g_preload_callback c) ?es1 0 = Some (es2, ev2)"
    and l2: "length es2 = length ?es1" and i2: "\<forall>e \<in> set es2. entry_inv e \<and> \<not> thread_running e"
    by blast
  then have a2: "\<forall>e \<in> set es2. entry_inv e" by simp
  from clear_all_cleanup_returns [OF a2, of eng "g_preload_callback c" 0]
  obtain es3 ev3 where cl: "clear_all_cleanup eng (g_preload_callback c) es2 0 = Some (es3, ev3)"
    and l3: "length es3 = length es2" and i3: "\<forall>e \<in> set es3. entry_inv e \<and> url e = None"
    by blast
  have r: "mpv_preload_clear_all eng c =
             Some (c\<lparr> entries := es3 \<rparr>,
                   [MutexLock] @ ?ev1 @ [MutexUnlock] @ ev2 @ [MutexLock] @ ev3 @ [MutexUnlock])"
    using True j cl by (simp add: mpv_preload_clear_all_def split_beta)
  have "cache_inv (c\<lparr> entries := es3 \<rparr>)"
    using inv l1 l2 l3 i3 by (simp add: cache_inv_def unique_urls_all_free)
  with r i3 show ?thesis by simp
qed

lemma start_inv:
  assumes inv: "cache_inv c" and r: "mpv_preload_start eng now created u opts c = Some (ret, c1, tr)"
  shows "cache_inv c1"
proof (cases "u = None \<or> u = Some []")
  case True
  from start_rejected [OF this, of eng now created opts c] r inv show ?thesis by simp
next
  case False
  then obtain L where L: "u = Some L" "L \<noteq> []" by auto
  show ?thesis
  proof (cases "find_entry_locked L c")
    case (Some i)
    from start_existing [OF L(2) Some, of eng now created opts] r L
    have "c1 = ensure_initialized c" by simp
    with inv show ?thesis by (simp add: cache_inv_ensure_initialized)
  next
    case None
    let ?c0 = "ensure_initialized c"
    have inv0: "cache_inv ?c0" using inv by (rule cache_inv_ensure_initialized)
    from find_free_slot_returns [OF inv0, of eng]
    obtain k c2 evs where ff: "find_free_slot_locked eng ?c0 = Some (Some k, c2, evs)"
      and kl: "k < length (entries ?c0)"
      and alt: "(first_free_from (entries ?c0) 0 = Some k \<and> c2 = ?c0 \<and> evs = [])
              \<or> (first_free_from (entries ?c0) 0 = None \<and> is_oldest (entries ?c0) k
                  \<and> c2 = ?c0\<lparr> entries := (entries ?c0)[k := zero_entry] \<rparr>
                  \<and> cleanup_entry eng (g_preload_callback ?c0) k (entries ?c0 ! k)
                      = Some (zero_entry, evs))"
      by blast
    have inv2: "cache_inv c2" and free2: "url (entries c2 ! k) = None"
      and len2: "length (entries c2) = length (entries c)" and ini2: "initialized c2"
      and nf2: "\<forall>e \<in> set (entries c2). url e \<noteq> Some L"
    proof -
      from alt show "cache_inv c2"
      proof
        assume "first_free_from (entries ?c0) 0 = Some k \<and> c2 = ?c0 \<and> evs = []"
        with inv0 show ?thesis by simp
      next
        assume "first_free_from (entries ?c0) 0 = None \<and> is_oldest (entries ?c0) k
                  \<and> c2 = ?c0\<lparr> entries := (entries ?c0)[k := zero_entry] \<rparr>
                  \<and> cleanup_entry eng (g_preload_callback ?c0) k (entries ?c0 ! k)
                      = Some (zero_entry, evs)"
        then have "c2 = ?c0\<lparr> entries := (entries ?c0)[k := zero_entry] \<rparr>" by simp
        with cache_inv_update [OF inv0 kl zero_entry_ok] show ?thesis by simp
      qed
      from alt kl show "url (entries c2 ! k) = None"
        using first_free_from_SomeD [of "entries ?c0" 0 k] by auto
      from alt show "length (entries c2) = length (entries c)" by auto
      from alt show "initialized c2" by auto
      have "\<forall>e \<in> set (entries c). url e \<noteq> Some L"
        using None by (simp add: find_entry_locked_None_iff)
      with alt show "\<forall>e \<in> set (entries c2). url e \<noteq> Some L"
        using set_update_subset_insert [of "entries c" k zero_entry] by auto
    qed
    have kl2: "k < length (entries c2)" using kl len2 by simp
    have old: "entry_inv (entries c2 ! k)" using inv2 kl2 by (simp add: cache_inv_def)
    let ?ne = "if created
               then (init_entry (entries c2 ! k) L now opts)
                      \<lparr> thread := T_start, thread_running := True \<rparr>
               else (init_entry (entries c2 ! k) L now opts)
                      \<lparr> url := None, status := MPV_PRELOAD_STATUS_NONE \<rparr>"
    from start_new [OF inv L(2) None, of eng now created opts] ff r L
    have c1: "c1 = c2\<lparr> entries := (entries c2)[k := ?ne] \<rparr>" by auto
    have ninv: "entry_inv ?ne \<and> (url ?ne \<noteq> None \<longrightarrow> thread_running ?ne)"
      using old free2 by (auto simp: entry_inv_def init_entry_def split: thread_state.splits)
    have cond: "url ?ne = None \<or> url ?ne = url (entries c2 ! k)
         \<or> (initialized c2 \<and> (\<forall>j < length (entries c2). j \<noteq> k \<longrightarrow> url (entries c2 ! j) \<noteq> url ?ne))"
      using nf2 ini2 by (auto simp: init_entry_def dest: nth_mem)
    from cache_inv_update [OF inv2 kl2 ninv cond] c1 show ?thesis by simp
  qed
qed

lemma get_demuxer_inv:
  assumes inv: "cache_inv c" and r: "mpv_preload_get_demuxer eng u c = Some (ret, c1, tr)"
  shows "cache_inv c1"
proof (cases ret)
  case None
  with get_demuxer_null_unchanged [OF inv, of eng u c1 tr] r inv show ?thesis by simp
next
  case (Some d)
  with r obtain L where L: "u = Some L" by (cases u) (auto simp: get_demuxer_absent)
  from get_demuxer_nonnull_iff [OF inv, of eng L] r L Some
  obtain i where cl: "claimable L c i" by blast
  then have il: "i < length (entries c)"
    using find_entry_locked_SomeD [of L c i] by (simp add: claimable_def)
  from get_demuxer_success [OF inv cl, of eng] r L
  obtain e4 where "c1 = c\<lparr> entries := (entries c)[i := e4] \<rparr>" "url e4 = None" "entry_inv e4"
    by auto
  with cache_inv_update [OF inv il, of e4] show ?thesis by simp
qed

lemma cancel_inv:
  assumes inv: "cache_inv c" and r: "mpv_preload_cancel eng u c = Some (ret, c1, tr)"
  shows "cache_inv c1"
proof (cases u)
  case None
  with r inv show ?thesis by (simp add: cancel_absent)
next
  case (Some L)
  show ?thesis
  proof (cases "\<not> initialized c \<or> find_entry_locked L c = None")
    case True
    from cancel_not_found [OF this, of eng] r Some inv show ?thesis by auto
  next
    case False
    then obtain i where ini: "initialized c" and f: "find_entry_locked L c = Some i" by auto
    then have il: "i < length (entries c)" using find_entry_locked_SomeD [of L c i] by simp
    from cancel_found [OF inv ini f, of eng] r Some
    have "c1 = c\<lparr> entries := (entries c)[i := zero_entry] \<rparr>" by auto
    with cache_inv_update [OF inv il zero_entry_ok] show ?thesis by simp
  qed
qed

lemma worker_step_inv:
  assumes inv: "cache_inv c"
  shows "cache_inv (fst (worker_step eng i c))"
proof (cases "i < length (entries c)")
  case True
  let ?e1 = "fst (preload_thread_step eng (g_preload_callback c) i (entries c ! i))"
  have "entry_inv (entries c ! i)"
    and "url (entries c ! i) \<noteq> None \<longrightarrow> thread_running (entries c ! i)"
    using inv True by (simp_all add: cache_inv_def)
  then have e1: "entry_inv ?e1 \<and> (url ?e1 \<noteq> None \<longrightarrow> thread_running ?e1)"
    by (simp add: step_entry_inv step_frame)
  have "url ?e1 = url (entries c ! i)" by (rule step_frame)
  with cache_inv_update [OF inv True e1] True show ?thesis
    by (simp add: worker_step_def split_beta)
next
  case False
  with inv show ?thesis by (simp add: worker_step_def)
qed

lemma cache_inv_initial: "cache_inv initial_state"
  by (simp add: cache_inv_def initial_state_def unique_urls_all_free)

lemma apply_action_inv:
  assumes "cache_inv c" "apply_action eng a c = Some (c1, tr)"
  shows "cache_inv c1"
proof (cases a)
  case (Start now created u opts)
  with assms start_inv [OF assms(1), of eng now created u opts] show ?thesis
    by (auto split: option.splits)
next
  case (GetInfo u info)
  with assms show ?thesis by (auto split: prod.splits)
next
  case (GetDemuxer u)
  with assms get_demuxer_inv [OF assms(1), of eng u] show ?thesis
    by (auto split: option.splits)
next
  case (Cancel u)
  with assms cancel_inv [OF assms(1), of eng u] show ?thesis
    by (auto split: option.splits)
next
  case ClearAll
  with assms clear_all_returns [OF assms(1), of eng] show ?thesis by auto
next
  case (SetCallback cb)
  with assms show ?thesis by (auto simp: mpv_preload_set_callback_def cache_inv_def)
next
  case (WorkerStep i)
  with assms worker_step_inv [OF assms(1), of eng i] show ?thesis by auto
qed

text \<open>
  The invariants hold in every state reached from the initial table by operations and
  worker steps.
\<close>

lemma run_actions_inv:
  "cache_inv c \<Longrightarrow> run_actions acts c = Some (c1, tr) \<Longrightarrow> cache_inv c1"
proof (induction acts arbitrary: c tr)
  case Nil
  then show ?case by simp
next
  case (Cons x acts)
  obtain eng a where x: "x = (eng, a)" by (cases x)
  from Cons.prems(2) x obtain c2 ev2 tr2 where
    a: "apply_action eng a c = Some (c2, ev2)" and r: "run_actions acts c2 = Some (c1, tr2)"
    by (auto split: option.splits)
  from apply_action_inv [OF Cons.prems(1) a] have "cache_inv c2" .
  from Cons.IH [OF this r] show ?case .
qed

text \<open>Every operation returns in a state that satisfies the invariants.\<close>

lemma apply_action_returns:
  assumes "cache_inv c"
  shows "\<exists>r. apply_action eng a c = Some r"
proof (cases a)
  case (Start now created u opts)
  show ?thesis
  proof (cases "u = None \<or> u = Some []")
    case True
    from start_rejected [OF this, of eng now created opts c] Start show ?thesis by simp
  next
    case False
    then obtain L where L: "u = Some L" "L \<noteq> []" by auto
    show ?thesis
    proof (cases "find_entry_locked L c")
      case (Some i)
      from start_existing [OF L(2) Some, of eng now created opts] Start L show ?thesis by simp
    next
      case None
      from start_new [OF assms L(2) None, of eng now created opts] Start L show ?thesis by auto
    qed
  qed
next
  case (GetInfo u info)
  then show ?thesis by (auto split: prod.splits)
next
  case (GetDemuxer u)
  with get_demuxer_returns [OF assms, of eng u] show ?thesis by auto
next
  case (Cancel u)
  show ?thesis
  proof (cases u)
    case None
    with Cancel show ?thesis by (simp add: cancel_absent)
  next
    case (Some L)
    show ?thesis
    proof (cases "\<not> initialized c \<or> find_entry_locked L c = None")
      case True
      from cancel_not_found [OF this, of eng] Cancel Some show ?thesis by auto
    next
      case False
      then obtain i where "initialized c" "find_entry_locked L c = Some i" by auto
      from cancel_found [OF assms this, of eng] Cancel Some show ?thesis by auto
    qed
  qed
next
  case ClearAll
  with clear_all_returns [OF assms, of eng] show ?thesis by auto
next
  case (SetCallback cb)
  then show ?thesis by simp
next
  case (WorkerStep i)
  then show ?thesis by simp
qed

lemma claim_one_ready_eval:
  "mpv_preload_get_demuxer demo_engine (Some ''a'') one_ready =
     Some (Some 7,
           one_ready\<lparr> entries :=
             [(ready_entry ''a'' 100)\<lparr> url := None, global := None, demuxer := None,
                 cancel := None, status := MPV_PRELOAD_STATUS_NONE, thread := T_exited,
                 thread_running := False, cancel_requested := True \<rparr>,
              zero_entry, zero_entry, zero_entry] \<rparr>,
           [MutexLock, MutexUnlock, ThreadJoin 0, MutexLock,
            TallocStealGlobal 0 1, TallocStealCancel 0, MutexUnlock])"
  by (simp add: mpv_preload_get_demuxer_def find_entry_locked_def one_ready_def
        ready_entry_def mp_thread_join_def preload_thread_run.simps preload_thread_step_def
        mp_cancel_test_def Let_def)

lemma unique_urls_count:
  "unique_urls es \<Longrightarrow> length (filter (\<lambda>e. url e = Some L) es) \<le> 1"
proof (induction es)
  case Nil
  then show ?case by simp
next
  case (Cons e es)
  then have u: "url e \<noteq> None \<longrightarrow> (\<forall>x \<in> set es. url x \<noteq> url e)" and r: "unique_urls es"
    by simp_all
  show ?case
  proof (cases "url e = Some L")
    case True
    with u have "filter (\<lambda>e. url e = Some L) es = []" by (auto simp: filter_empty_conv)
    with True show ?thesis by simp
  next
    case False
    with Cons.IH [OF r] show ?thesis by simp
  qed
qed

lemma present_count:
  assumes "unique_urls es" "i < length es" "url (es ! i) = Some L"
  shows "length (filter (\<lambda>e. url e = Some L) es) = 1"
proof -
  have "es ! i \<in> set (filter (\<lambda>e. url e = Some L) es)" using assms(2,3) by simp
  then have "filter (\<lambda>e. url e = Some L) es \<noteq> []" by (metis empty_iff list.set(1))
  then have "0 < length (filter (\<lambda>e. url e = Some L) es)" by (rule length_greater_0_conv [THEN iffD2])
  with unique_urls_count [OF assms(1), of L] show ?thesis by linarith
qed

lemma worker_step_urls:
  "map url (entries (fst (worker_step eng i c))) = map url (entries c)
   \<and> map thread_running (entries (fst (worker_step eng i c))) = map thread_running (entries c)
   \<and> map max_bytes (entries (fst (worker_step eng i c))) = map max_bytes (entries c)
   \<and> map readahead_secs (entries (fst (worker_step eng i c))) = map readahead_secs (entries c)
   \<and> initialized (fst (worker_step eng i c)) = initialized c"
  by (simp add: worker_step_def split_beta map_update step_frame list_update_same_conv)

lemma no_stop_keeps:
  assumes "apply_action eng a c = Some (c1, tr)" "no_stop a"
  shows "map url (entries c1) = map url (entries c)
         \<and> map thread_running (entries c1) = map thread_running (entries c)
         \<and> map max_bytes (entries c1) = map max_bytes (entries c)
         \<and> map readahead_secs (entries c1) = map readahead_secs (entries c)
         \<and> initialized c1 = initialized c
         \<and> (\<forall>i. ThreadCreate i \<notin> set tr)"
proof (cases a)
  case (WorkerStep i)
  with assms(1) have c1: "c1 = fst (worker_step eng i c)" and tr: "tr = snd (worker_step eng i c)"
    by auto
  have "\<forall>k. ThreadCreate k \<notin> set tr"
  proof (intro allI notI)
    fix k assume "ThreadCreate k \<in> set tr"
    with tr have "ThreadCreate k \<in> set (snd (preload_thread_step eng (g_preload_callback c) i
                       (entries c ! i)))"
      by (auto simp: worker_step_def split_beta split: if_splits)
    from step_worker_events [OF this] show False by (simp add: is_worker_event_def)
  qed
  with c1 worker_step_urls [of eng i c] show ?thesis by simp
next
  case (GetInfo u info)
  with assms(1) show ?thesis
    by (auto simp: mpv_preload_get_info_def split: prod.splits option.splits if_splits)
next
  case (SetCallback cb)
  with assms(1) show ?thesis by (auto simp: mpv_preload_set_callback_def)
qed (use assms(2) in simp_all)

lemma no_stop_run_keeps:
  assumes "run_actions acts c = Some (c1, tr)" "\<forall>x \<in> set acts. no_stop (snd x)"
  shows "map url (entries c1) = map url (entries c)
         \<and> map thread_running (entries c1) = map thread_running (entries c)
         \<and> map max_bytes (entries c1) = map max_bytes (entries c)
         \<and> map readahead_secs (entries c1) = map readahead_secs (entries c)
         \<and> initialized c1 = initialized c
         \<and> (\<forall>i. ThreadCreate i \<notin> set tr)"
  using assms
proof (induction acts arbitrary: c tr)
  case Nil
  then show ?case by simp
next
  case (Cons x acts)
  obtain eng a where x: "x = (eng, a)" by (cases x)
  from Cons.prems(1) x obtain c2 ev2 tr2 where
    a: "apply_action eng a c = Some (c2, ev2)" and r: "run_actions acts c2 = Some (c1, tr2)"
    and tr: "tr = ev2 @ tr2"
    by (auto split: option.splits)
  from Cons.prems(2) x have ns: "no_stop a" and rest: "\<forall>x \<in> set acts. no_stop (snd x)"
    by simp_all
  from no_stop_keeps [OF a ns] Cons.IH [OF r rest] tr show ?case by simp
qed

lemma find_entry_from_map_url:
  "map url es = map url es' \<Longrightarrow> find_entry_from u es n = find_entry_from u es' n"
proof (induction es arbitrary: es' n)
  case Nil
  then show ?case by simp
next
  case (Cons e es)
  then obtain e' es'' where "es' = e' # es''" by (cases es') auto
  with Cons show ?case by auto
qed

lemma start_success_present:
  assumes inv: "cache_inv c" and ne: "L \<noteq> []"
    and r: "mpv_preload_start eng now created (Some L) opts c = Some (0, c1, tr)"
  shows "\<exists>i. find_entry_locked L c1 = Some i \<and> thread_running (entries c1 ! i)"
proof -
  have inv1: "cache_inv c1" using start_inv [OF inv r] .
  show ?thesis
  proof (cases "find_entry_locked L c")
    case (Some i)
    from start_existing [OF ne Some, of eng now created opts] r
    have c1: "c1 = ensure_initialized c" by simp
    from find_entry_locked_SomeD [OF Some] inv
    have "thread_running (entries c ! i)" by (auto simp: cache_inv_def)
    with Some c1 show ?thesis by simp
  next
    case None
    from start_new [OF inv ne None, of eng now created opts] r
    obtain k c2 evs where ff: "find_free_slot_locked eng (ensure_initialized c) = Some (Some k, c2, evs)"
      and cr: "created"
      and c1: "c1 = c2\<lparr> entries := (entries c2)
                           [k := (init_entry (entries c2 ! k) L now opts)
                                         \<lparr> thread := T_start, thread_running := True \<rparr>] \<rparr>"
      by (auto split: if_splits)
    from find_free_slot_returns [OF cache_inv_ensure_initialized [OF inv], of eng] ff
    have "k < length (entries c2)" by auto
    with c1 have kl: "k < length (entries c1)" and uk: "url (entries c1 ! k) = Some L"
      and tk: "thread_running (entries c1 ! k)"
      by (simp_all add: init_entry_def)
    from find_entry_locked_unique [OF _ kl uk] inv1 have "find_entry_locked L c1 = Some k"
      by (simp add: cache_inv_def)
    with tk show ?thesis by simp
  qed
qed

lemma initial_entries:
  "entries initial_state = [zero_entry, zero_entry, zero_entry, zero_entry]"
  by (simp add: initial_state_def MPV_PRELOAD_MAX_ENTRIES_def numeral_eq_Suc)

lemma start_a_eval:
  "mpv_preload_start demo_engine 100 True (Some ''a'') None initial_state
     = Some (0, table_of [started_entry ''a'' 100, zero_entry, zero_entry, zero_entry],
             [MutexLock, ThreadCreate 0, MutexUnlock])"
  by (simp add: mpv_preload_start_def ensure_initialized_def find_entry_locked_def
        find_free_slot_locked_def initial_state_def MPV_PRELOAD_MAX_ENTRIES_def numeral_eq_Suc
        table_of_def started_entry_def init_entry_def)

lemma worker_steps_a_eval:
  "run_actions [(demo_engine, WorkerStep 0), (demo_engine, WorkerStep 0),
                (demo_engine, GetInfo (Some ''a'') (Some zero_info))]
     (table_of [started_entry ''a'' 100, zero_entry, zero_entry, zero_entry])
   = Some (table_of [(started_entry ''a'' 100)\<lparr> global := Some 1,
                        cancel := Some \<lparr> triggered = False \<rparr>, demuxer := Some 7,
                        thread := T_opened \<rparr>, zero_entry, zero_entry, zero_entry],
           [MutexLock, MutexUnlock])"
  by (simp add: worker_step_def preload_thread_step_def table_of_def started_entry_def
        init_entry_def zero_entry_def create_minimal_global_def demo_engine_def
        mpv_preload_get_info_def find_entry_locked_def)

lemma start_new_entry:
  assumes inv: "cache_inv c" and ne: "u \<noteq> []" and nf: "find_entry_locked u c = None"
    and r: "mpv_preload_start eng now created (Some u) opts c = Some (ret, c1, tr)"
  shows "\<exists>k c2 evs. find_free_slot_locked eng (ensure_initialized c) = Some (Some k, c2, evs)
           \<and> k < length (entries c2) \<and> length (entries c2) = length (entries c)
           \<and> url (entries c2 ! k) = None
           \<and> (thread (entries c2 ! k) = T_none \<or> thread (entries c2 ! k) = T_exited)
           \<and> (\<forall>e \<in> set (entries c2). url e \<noteq> Some u)
           \<and> cache_inv c2 \<and> initialized c2
           \<and> ret = (if created then 0 else - 1)
           \<and> c1 = c2\<lparr> entries := (entries c2)
                           [k := (if created
                                  then (init_entry (entries c2 ! k) u now opts)
                                         \<lparr> thread := T_start, thread_running := True \<rparr>
                                  else (init_entry (entries c2 ! k) u now opts)
                                         \<lparr> url := None, status := MPV_PRELOAD_STATUS_NONE \<rparr>)] \<rparr>
           \<and> tr = [MutexLock] @ evs @ (if created then [ThreadCreate k] else [])
                     @ [MutexUnlock]"
proof -
  let ?c0 = "ensure_initialized c"
  have inv0: "cache_inv ?c0" using inv by (rule cache_inv_ensure_initialized)
  from start_new [OF inv ne nf, of eng now created opts] r
  obtain k c2 evs where ff: "find_free_slot_locked eng ?c0 = Some (Some k, c2, evs)"
    and res: "ret = (if created then 0 else - 1)"
      "c1 = c2\<lparr> entries := (entries c2)
                           [k := (if created
                                  then (init_entry (entries c2 ! k) u now opts)
                                         \<lparr> thread := T_start, thread_running := True \<rparr>
                                  else (init_entry (entries c2 ! k) u now opts)
                                         \<lparr> url := None, status := MPV_PRELOAD_STATUS_NONE \<rparr>)] \<rparr>"
      "tr = [MutexLock] @ evs @ (if created then [ThreadCreate k] else []) @ [MutexUnlock]"
    by auto
  from find_free_slot_returns [OF inv0, of eng] ff
  have kl: "k < length (entries ?c0)"
    and alt: "(first_free_from (entries ?c0) 0 = Some k \<and> c2 = ?c0 \<and> evs = [])
              \<or> (first_free_from (entries ?c0) 0 = None \<and> is_oldest (entries ?c0) k
                  \<and> c2 = ?c0\<lparr> entries := (entries ?c0)[k := zero_entry] \<rparr>
                  \<and> cleanup_entry eng (g_preload_callback ?c0) k (entries ?c0 ! k)
                      = Some (zero_entry, evs))"
    by auto
  have inv2: "cache_inv c2"
    using alt inv0 cache_inv_update [OF inv0 kl zero_entry_ok] by auto
  have free2: "url (entries c2 ! k) = None"
    using alt kl first_free_from_SomeD [of "entries ?c0" 0 k] by auto
  have len2: "length (entries c2) = length (entries c)" using alt by auto
  have ini2: "initialized c2" using alt by auto
  have "\<forall>e \<in> set (entries c). url e \<noteq> Some u"
    using nf by (simp add: find_entry_locked_None_iff)
  then have nf2: "\<forall>e \<in> set (entries c2). url e \<noteq> Some u"
    using alt set_update_subset_insert [of "entries c" k zero_entry] by auto
  have kl2: "k < length (entries c2)" using kl len2 by simp
  have "entry_inv (entries c2 ! k)" using inv2 kl2 by (simp add: cache_inv_def)
  with free2 have th: "thread (entries c2 ! k) = T_none \<or> thread (entries c2 ! k) = T_exited"
    by (auto simp: entry_inv_def split: thread_state.splits)
  show ?thesis
    using ff kl2 len2 free2 th nf2 inv2 ini2 res
    by (intro exI [of _ k] exI [of _ c2] exI [of _ evs]) simp
qed

lemma first_free_from_present:
  "i < length es \<Longrightarrow> url (es ! i) = None \<Longrightarrow> \<exists>j. first_free_from es n = Some j \<and> j \<le> n + i"
proof (induction es arbitrary: n i)
  case Nil
  then show ?case by simp
next
  case (Cons e es)
  show ?case
  proof (cases "url e = None")
    case True
    then show ?thesis by simp
  next
    case False
    with Cons.prems obtain i' where i: "i = Suc i'" by (cases i) auto
    with Cons.prems have "i' < length es" "url (es ! i') = None" by simp_all
    from Cons.IH [OF this, of "Suc n"] False i show ?thesis by auto
  qed
qed

lemma cleanup_entry_events:
  assumes "entry_inv e" "cleanup_entry eng cb i e = Some (e1, evs)"
  shows "\<forall>ev \<in> set evs. ev = CancelTrigger i \<or> ev = ThreadJoin i \<or> is_worker_event ev
           \<or> (\<exists>d. ev = DemuxCancelAndFree i d)"
proof (cases "url e = None")
  case True
  with cleanup_entry_returns [OF assms(1), of eng cb i] assms(2) show ?thesis by auto
next
  case False
  with cleanup_entry_returns [OF assms(1), of eng cb i] assms(2)
  obtain ws fr where evs: "evs = (case cancel e of None \<Rightarrow> [] | Some t \<Rightarrow> [CancelTrigger i])
                         @ (if thread_running e then ThreadJoin i # ws else []) @ fr"
    and ws: "\<forall>ev \<in> set ws. is_worker_event ev"
    and fr: "case demuxer e of
               Some d \<Rightarrow> fr = [DemuxCancelAndFree i d]
             | None \<Rightarrow> fr = [] \<or> (thread_running e \<and> (\<exists>d. fr = [DemuxCancelAndFree i d]))"
    by auto
  have f: "\<forall>ev \<in> set fr. \<exists>d. ev = DemuxCancelAndFree i d"
    using fr by (auto split: option.splits)
  have t: "\<forall>ev \<in> set (case cancel e of None \<Rightarrow> [] | Some t \<Rightarrow> [CancelTrigger i]).
             ev = CancelTrigger i"
    by (simp split: option.splits)
  have j: "\<forall>ev \<in> set (if thread_running e then ThreadJoin i # ws else []).
             ev = ThreadJoin i \<or> is_worker_event ev"
    using ws by auto
  show ?thesis unfolding evs using f t j by (metis Un_iff set_append)
qed

lemma start_in_free_slot:
  assumes inv: "cache_inv c" and ne: "u \<noteq> []" and nf: "find_entry_locked u c = None"
    and fr: "first_free_from (entries c) 0 = Some j"
  shows "mpv_preload_start eng now created (Some u) opts c =
           Some (if created then 0 else - 1,
                 (ensure_initialized c)\<lparr> entries := (entries c)
                    [j := (if created
                           then (init_entry (entries c ! j) u now opts)
                                  \<lparr> thread := T_start, thread_running := True \<rparr>
                           else (init_entry (entries c ! j) u now opts)
                                  \<lparr> url := None, status := MPV_PRELOAD_STATUS_NONE \<rparr>)] \<rparr>,
                 [MutexLock] @ (if created then [ThreadCreate j] else []) @ [MutexUnlock])"
  using ne nf fr
  by (simp add: mpv_preload_start_def find_free_slot_locked_def Let_def init_entry_def)


lemma evict_eval:
  "mpv_preload_start demo_engine 5 True (Some ''e'') None full_table
   = Some (0, full_table_evicted,
           [MutexLock, ThreadJoin 0, DemuxStartPrefetch 0 7, DemuxCancelAndFree 0 7,
            ThreadCreate 0, MutexUnlock])"
  by (simp add: mpv_preload_start_def ensure_initialized_def find_entry_locked_def
        find_free_slot_locked_def cleanup_entry_def request_cancel_def trigger_if_cancel_def
        join_if_running_def mp_thread_join_def preload_thread_run.simps preload_thread_step_def
        create_minimal_global_def invoke_callback_def mp_cancel_test_def demo_engine_def
        table_of_def started_entry_def init_entry_def full_table_def full_table_evicted_def
        zero_entry_def Let_def)


lemma cleanup_entry_occupied:
  assumes "entry_inv e" "url e \<noteq> None"
  shows "\<exists>ws fr. cleanup_entry eng cb i e
             = Some (zero_entry,
                     (case cancel e of None \<Rightarrow> [] | Some t \<Rightarrow> [CancelTrigger i])
                     @ (if thread_running e then ThreadJoin i # ws else []) @ fr)
           \<and> (\<forall>ev \<in> set ws. is_worker_event ev)
           \<and> (case demuxer e of
                 Some d \<Rightarrow> fr = [DemuxCancelAndFree i d]
               | None \<Rightarrow> fr = [] \<or> (thread_running e \<and> (\<exists>d. fr = [DemuxCancelAndFree i d])))"
proof -
  have "\<exists>evs. cleanup_entry eng cb i e = Some (zero_entry, evs)
           \<and> (\<exists>ws fr. evs = (case cancel e of None \<Rightarrow> [] | Some t \<Rightarrow> [CancelTrigger i])
                         @ (if thread_running e then ThreadJoin i # ws else []) @ fr
                      \<and> (\<forall>ev \<in> set ws. is_worker_event ev)
                      \<and> (case demuxer e of
                            Some d \<Rightarrow> fr = [DemuxCancelAndFree i d]
                          | None \<Rightarrow> fr = [] \<or> (thread_running e \<and> (\<exists>d. fr = [DemuxCancelAndFree i d]))))"
    using cleanup_entry_returns [OF assms(1), of eng cb i] assms(2) by simp
  then show ?thesis by blast
qed





lemma claim_one_ready_events:
  "\<exists>c1 tr. mpv_preload_get_demuxer demo_engine (Some ''a'') one_ready = Some (Some 7, c1, tr)
     \<and> CancelTrigger 0 \<notin> set tr \<and> cancel_requested (entries c1 ! 0)"
  using claim_one_ready_eval by (simp add: ready_entry_def)

lemma cancel_one_ready_eval:
  "mpv_preload_cancel demo_engine (Some ''a'') one_ready
     = Some (0, one_ready\<lparr> entries := [zero_entry, zero_entry, zero_entry, zero_entry] \<rparr>,
             [MutexLock, CancelTrigger 0, MutexUnlock, ThreadJoin 0, MutexLock,
              CancelTrigger 0, DemuxCancelAndFree 0 7, MutexUnlock])"
  by (simp add: mpv_preload_cancel_def find_entry_locked_def one_ready_def ready_entry_def
        cleanup_entry_def request_cancel_def trigger_if_cancel_def mp_cancel_trigger_def
        join_if_running_def mp_thread_join_def preload_thread_run.simps preload_thread_step_def
        mp_cancel_test_def Let_def)

lemma joins_outside_lock_neutral:
  assumes "\<forall>ev \<in> set ws. ev \<noteq> MutexLock \<and> ev \<noteq> MutexUnlock \<and> (\<forall>i. ev \<noteq> ThreadJoin i)"
  shows "joins_outside_lock held (ws @ rest) = joins_outside_lock held rest"
  using assms
proof (induction ws)
  case Nil
  then show ?case by simp
next
  case (Cons ev ws)
  then show ?case by (cases ev) simp_all
qed

lemma worker_events_neutral:
  "\<forall>ev \<in> set ws. is_worker_event ev \<Longrightarrow>
   \<forall>ev \<in> set ws. ev \<noteq> MutexLock \<and> ev \<noteq> MutexUnlock \<and> (\<forall>i. ev \<noteq> ThreadJoin i)"
  by (auto simp: is_worker_event_def)

text \<open>The operations that join outside the mutex.\<close>

lemma get_demuxer_lock_discipline:
  assumes inv: "cache_inv c" and r: "mpv_preload_get_demuxer eng u c = Some (ret, c1, tr)"
  shows "joins_outside_lock False tr"
proof (cases u)
  case None
  with r show ?thesis by (simp add: get_demuxer_absent)
next
  case (Some L)
  show ?thesis
  proof (cases "\<exists>i. claimable L c i")
    case True
    then obtain i where cl: "claimable L c i" ..
    from get_demuxer_success [OF inv cl, of eng] r Some
    obtain ws st where tr: "tr = [MutexLock]
                  @ (if thread_running (entries c ! i)
                     then [MutexUnlock, ThreadJoin i] @ ws @ [MutexLock] else [])
                  @ st @ [MutexUnlock]"
      and ws: "\<forall>ev \<in> set ws. is_worker_event ev"
      and st: "\<forall>ev \<in> set st. (\<exists>g. ev = TallocStealGlobal i g) \<or> ev = TallocStealCancel i"
      by auto
    have n1: "\<forall>ev \<in> set ws. ev \<noteq> MutexLock \<and> ev \<noteq> MutexUnlock \<and> (\<forall>i. ev \<noteq> ThreadJoin i)"
      using ws by (rule worker_events_neutral)
    have n2: "\<forall>ev \<in> set st. ev \<noteq> MutexLock \<and> ev \<noteq> MutexUnlock \<and> (\<forall>i. ev \<noteq> ThreadJoin i)"
      using st by auto
    show ?thesis unfolding tr
      by (simp add: joins_outside_lock_neutral [OF n1] joins_outside_lock_neutral [OF n2])
  next
    case False
    then have "\<forall>i. \<not> claimable L c i" by simp
    from get_demuxer_fail [OF this, of eng] r Some show ?thesis by auto
  qed
qed

lemma cancel_lock_discipline:
  assumes inv: "cache_inv c" and r: "mpv_preload_cancel eng u c = Some (ret, c1, tr)"
  shows "joins_outside_lock False tr"
proof (cases u)
  case None
  with r show ?thesis by (simp add: cancel_absent)
next
  case (Some L)
  show ?thesis
  proof (cases "\<not> initialized c \<or> find_entry_locked L c = None")
    case True
    from cancel_not_found [OF this, of eng] r Some show ?thesis by auto
  next
    case False
    then obtain i where ini: "initialized c" and f: "find_entry_locked L c = Some i" by auto
    from cancel_found [OF inv ini f, of eng] r Some
    obtain ws tr2 fr where tr: "tr = [MutexLock]
                  @ (case cancel (entries c ! i) of None \<Rightarrow> [] | Some t \<Rightarrow> [CancelTrigger i])
                  @ [MutexUnlock]
                  @ (if thread_running (entries c ! i) then ThreadJoin i # ws else [])
                  @ [MutexLock] @ tr2 @ fr @ [MutexUnlock]"
      and ws: "\<forall>ev \<in> set ws. is_worker_event ev"
      and t2: "tr2 = [] \<or> tr2 = [CancelTrigger i]"
      and fr: "fr = [] \<or> (\<exists>d. fr = [DemuxCancelAndFree i d])"
      by auto
    have n1: "\<forall>ev \<in> set ws. ev \<noteq> MutexLock \<and> ev \<noteq> MutexUnlock \<and> (\<forall>i. ev \<noteq> ThreadJoin i)"
      using ws by (rule worker_events_neutral)
    have n2: "\<forall>ev \<in> set (tr2 @ fr). ev \<noteq> MutexLock \<and> ev \<noteq> MutexUnlock \<and> (\<forall>i. ev \<noteq> ThreadJoin i)"
      using t2 fr by auto
    have n3: "\<forall>ev \<in> set (case cancel (entries c ! i) of None \<Rightarrow> [] | Some t \<Rightarrow> [CancelTrigger i]).
                ev \<noteq> MutexLock \<and> ev \<noteq> MutexUnlock \<and> (\<forall>i. ev \<noteq> ThreadJoin i)"
      by (auto split: option.splits)
    have "joins_outside_lock False tr
            = joins_outside_lock True ((case cancel (entries c ! i) of None \<Rightarrow> [] | Some t \<Rightarrow> [CancelTrigger i])
                  @ ([MutexUnlock]
                  @ (if thread_running (entries c ! i) then ThreadJoin i # ws else [])
                  @ [MutexLock] @ (tr2 @ fr) @ [MutexUnlock]))"
      unfolding tr by simp
    also have "\<dots> = joins_outside_lock True ([MutexUnlock]
                  @ (if thread_running (entries c ! i) then ThreadJoin i # ws else [])
                  @ [MutexLock] @ (tr2 @ fr) @ [MutexUnlock])"
      by (rule joins_outside_lock_neutral [OF n3])
    also have "\<dots>"
      using joins_outside_lock_neutral [OF n1, of False "[MutexLock] @ (tr2 @ fr) @ [MutexUnlock]"]
        joins_outside_lock_neutral [OF n2, of True "[MutexUnlock]"]
      by simp
    finally show ?thesis .
  qed
qed

lemma joins_allowed_unlocked:
  assumes "\<forall>ev \<in> set ws. ev \<noteq> MutexLock \<and> ev \<noteq> MutexUnlock"
  shows "joins_outside_lock False (ws @ rest) = joins_outside_lock False rest"
  using assms
proof (induction ws)
  case Nil
  then show ?case by simp
next
  case (Cons ev ws)
  then show ?case by (cases ev) simp_all
qed

lemma cleanup_entry_joined_events:
  assumes "entry_inv e" "\<not> thread_running e" "cleanup_entry eng cb i e = Some (e1, evs)"
  shows "\<forall>ev \<in> set evs. ev \<noteq> MutexLock \<and> ev \<noteq> MutexUnlock \<and> (\<forall>k. ev \<noteq> ThreadJoin k)"
proof (cases "url e = None")
  case True
  with assms(3) show ?thesis by (simp add: cleanup_entry_def)
next
  case False
  from cleanup_entry_occupied [OF assms(1) False, of eng cb i] assms(2,3)
  obtain fr where evs: "evs = (case cancel e of None \<Rightarrow> [] | Some t \<Rightarrow> [CancelTrigger i]) @ fr"
    and fr: "case demuxer e of Some d \<Rightarrow> fr = [DemuxCancelAndFree i d] | None \<Rightarrow> fr = []"
    by (auto split: option.splits)
  show ?thesis unfolding evs using fr by (auto split: option.splits)
qed

lemma clear_all_cleanup_events:
  assumes "\<forall>e \<in> set es. entry_inv e \<and> \<not> thread_running e"
    and "clear_all_cleanup eng cb es n = Some (es1, evs)"
  shows "\<forall>ev \<in> set evs. ev \<noteq> MutexLock \<and> ev \<noteq> MutexUnlock \<and> (\<forall>k. ev \<noteq> ThreadJoin k)"
  using assms
proof (induction es arbitrary: n es1 evs)
  case Nil
  then show ?case by simp
next
  case (Cons e es)
  from Cons.prems(2) obtain e1 ev1 es2 ev2 where
    c: "cleanup_entry eng cb n e = Some (e1, ev1)"
    and r: "clear_all_cleanup eng cb es (Suc n) = Some (es2, ev2)"
    and evs: "evs = ev1 @ ev2"
    by (auto split: option.splits)
  from Cons.prems(1) have e: "entry_inv e" "\<not> thread_running e"
    and rest: "\<forall>e \<in> set es. entry_inv e \<and> \<not> thread_running e" by simp_all
  from cleanup_entry_joined_events [OF e c] Cons.IH [OF rest r] evs show ?case by auto
qed

lemma clear_all_lock_discipline:
  assumes inv: "cache_inv c" and r: "mpv_preload_clear_all eng c = Some (c1, tr)"
  shows "joins_outside_lock False tr"
proof (cases "initialized c")
  case False
  with r show ?thesis by (simp add: mpv_preload_clear_all_def)
next
  case True
  let ?es1 = "fst (clear_all_request (entries c) 0)"
  let ?ev1 = "snd (clear_all_request (entries c) 0)"
  from r True obtain es2 ev2 es3 ev3 where
    j: "clear_all_join eng (g_preload_callback c) ?es1 0 = Some (es2, ev2)"
    and cl: "clear_all_cleanup eng (g_preload_callback c) es2 0 = Some (es3, ev3)"
    and tr: "tr = [MutexLock] @ ?ev1 @ [MutexUnlock] @ ev2 @ [MutexLock] @ ev3 @ [MutexUnlock]"
    by (auto simp: mpv_preload_clear_all_def split_beta split: option.splits)
  have l1: "length ?es1 = length (entries c)"
    using clear_all_request_props [of "entries c" 0] by simp
  have a1: "\<forall>e \<in> set ?es1. entry_inv e \<and> (thread_running e \<longrightarrow> cancel_requested e)"
  proof
    fix e assume "e \<in> set ?es1"
    then obtain p where p: "p < length ?es1" "?es1 ! p = e" by (auto simp: in_set_conv_nth)
    with l1 have pl: "p < length (entries c)" by simp
    then have ei: "entry_inv (entries c ! p)" using inv by (simp add: cache_inv_def)
    then have u: "thread_running (entries c ! p) \<longrightarrow> url (entries c ! p) \<noteq> None"
      by (auto simp: entry_inv_def)
    from clear_all_request_props [of "entries c" 0] pl p(2) ei u
    show "entry_inv e \<and> (thread_running e \<longrightarrow> cancel_requested e)" by auto
  qed
  from clear_all_join_returns [OF a1, of eng "g_preload_callback c" 0] j
  have i2: "\<forall>e \<in> set es2. entry_inv e \<and> \<not> thread_running e"
    and e2: "\<forall>ev \<in> set ev2. (\<exists>k. ev = ThreadJoin k) \<or> is_worker_event ev"
    by auto
  have n1: "\<forall>ev \<in> set ?ev1. ev \<noteq> MutexLock \<and> ev \<noteq> MutexUnlock \<and> (\<forall>k. ev \<noteq> ThreadJoin k)"
    using clear_all_request_events [of "entries c" 0] by auto
  have n2: "\<forall>ev \<in> set ev2. ev \<noteq> MutexLock \<and> ev \<noteq> MutexUnlock"
    using e2 by (auto simp: is_worker_event_def)
  have n3: "\<forall>ev \<in> set ev3. ev \<noteq> MutexLock \<and> ev \<noteq> MutexUnlock \<and> (\<forall>k. ev \<noteq> ThreadJoin k)"
    using clear_all_cleanup_events [OF i2 cl] .
  have "joins_outside_lock False tr
          = joins_outside_lock True (?ev1 @ ([MutexUnlock] @ ev2 @ [MutexLock] @ ev3 @ [MutexUnlock]))"
    unfolding tr by simp
  also have "\<dots> = joins_outside_lock True ([MutexUnlock] @ ev2 @ [MutexLock] @ ev3 @ [MutexUnlock])"
    by (rule joins_outside_lock_neutral [OF n1])
  also have "\<dots> = joins_outside_lock False (ev2 @ ([MutexLock] @ ev3 @ [MutexUnlock]))"
    by simp
  also have "\<dots> = joins_outside_lock False ([MutexLock] @ ev3 @ [MutexUnlock])"
    by (rule joins_allowed_unlocked [OF n2])
  also have "\<dots> = joins_outside_lock True (ev3 @ [MutexUnlock])" by simp
  also have "\<dots> = joins_outside_lock True [MutexUnlock]"
    by (rule joins_outside_lock_neutral [OF n3])
  also have "\<dots>" by simp
  finally show ?thesis .
qed

lemma status_reaches_refl [simp]: "status_reaches s s"
  by (cases s) simp_all

lemma status_reaches_trans:
  "status_reaches s t \<Longrightarrow> status_reaches t u \<Longrightarrow> status_reaches s u"
  by (cases s; cases t; cases u) simp_all

lemma status_next_reaches: "status_next s t \<Longrightarrow> status_reaches s t"
  by (auto simp: status_next_def)

lemma status_reaches_rtranclp: "status_reaches s t \<longleftrightarrow> status_next\<^sup>*\<^sup>* s t"
proof
  assume r: "status_reaches s t"
  have n1: "status_next MPV_PRELOAD_STATUS_NONE MPV_PRELOAD_STATUS_LOADING"
    and n2: "status_next MPV_PRELOAD_STATUS_LOADING MPV_PRELOAD_STATUS_READY"
    and n3: "status_next MPV_PRELOAD_STATUS_READY MPV_PRELOAD_STATUS_CACHED"
    and n4: "status_next MPV_PRELOAD_STATUS_LOADING MPV_PRELOAD_STATUS_ERROR"
    by (simp_all add: status_next_def)
  from r show "status_next\<^sup>*\<^sup>* s t"
    by (cases s; cases t)
       (auto intro: n1 n2 n3 n4 rtranclp.rtrancl_into_rtrancl [OF rtranclp.rtrancl_into_rtrancl]
          rtranclp.rtrancl_into_rtrancl
          rtranclp.rtrancl_into_rtrancl [OF rtranclp.rtrancl_into_rtrancl [OF rtranclp.rtrancl_into_rtrancl]])
next
  assume "status_next\<^sup>*\<^sup>* s t"
  then show "status_reaches s t"
    by (induction rule: rtranclp_induct)
       (auto intro: status_reaches_trans status_next_reaches)
qed

lemma step_status_reaches:
  "entry_inv e \<Longrightarrow>
   status_reaches (status e) (status (fst (preload_thread_step eng cb i e)))"
  by (auto simp: entry_inv_def preload_thread_step_def Let_def split_beta
        split: thread_state.splits option.splits if_splits)

lemma interfere_keeps [simp]:
  "status (interfere x i e) = status e"
  "thread (interfere x i e) = thread e"
  "url (interfere x i e) = url e"
  "demuxer (interfere x i e) = demuxer e"
  "max_bytes (interfere x i e) = max_bytes e"
  by (cases x; simp)+

lemma interfere_inv: "entry_inv e \<Longrightarrow> entry_inv (interfere x i e)"
  by (cases x) (simp_all add: request_cancel_inv set_flag_inv)

lemma thread_run_statuses:
  "entry_inv e \<Longrightarrow>
   (\<forall>r \<in> set (thread_run envs i e). status_reaches (status e) (status (fst r)))
   \<and> sorted_wrt status_reaches (map (\<lambda>r. status (fst r)) (thread_run envs i e))"
proof (induction envs arbitrary: e)
  case Nil
  then show ?case by simp
next
  case (Cons env envs)
  obtain eng cb x where env: "env = (eng, cb, x)" by (cases env)
  let ?e1 = "fst (preload_thread_step eng cb i (interfere x i e))"
  have i0: "entry_inv (interfere x i e)" using Cons.prems by (rule interfere_inv)
  then have i1: "entry_inv ?e1" by (rule step_entry_inv)
  have s1: "status_reaches (status e) (status ?e1)"
    using step_status_reaches [OF i0, of eng cb i] by simp
  from Cons.IH [OF i1]
  have a: "\<forall>r \<in> set (thread_run envs i ?e1). status_reaches (status ?e1) (status (fst r))"
    and b: "sorted_wrt status_reaches (map (\<lambda>r. status (fst r)) (thread_run envs i ?e1))"
    by simp_all
  from a s1 have c: "\<forall>r \<in> set (thread_run envs i ?e1). status_reaches (status e) (status (fst r))"
    by (blast intro: status_reaches_trans)
  show ?case using env a b c s1 by (simp add: Let_def)
qed

lemma callback_statuses_append [simp]:
  "callback_statuses (xs @ ys) = callback_statuses xs @ callback_statuses ys"
  by (induction xs rule: callback_statuses.induct) simp_all

lemma invoke_callback_statuses:
  "callback_statuses (snd (invoke_callback eng cb e)) = (case cb of None \<Rightarrow> [] | Some f \<Rightarrow> [status e])"
  by (simp add: invoke_callback_def fill_preload_info_def Let_def split: option.splits)

lemma step_callback_statuses:
  "callback_statuses (snd (preload_thread_step eng cb i e)) =
     (if thread (fst (preload_thread_step eng cb i e)) = thread e \<or> cb = None then []
      else case thread e of
             T_start \<Rightarrow> (if thread (fst (preload_thread_step eng cb i e)) = T_exited
                          then [MPV_PRELOAD_STATUS_ERROR] else [])
           | T_open \<Rightarrow> (if thread (fst (preload_thread_step eng cb i e)) = T_exited
                         then [MPV_PRELOAD_STATUS_ERROR] else [])
           | T_opened \<Rightarrow> [MPV_PRELOAD_STATUS_READY]
           | T_body b \<Rightarrow> (if \<not> b \<and> thread (fst (preload_thread_step eng cb i e)) = T_test True
                           then [MPV_PRELOAD_STATUS_CACHED] else [])
           | _ \<Rightarrow> [])"
  by (auto simp: preload_thread_step_def invoke_callback_def fill_preload_info_def Let_def
        split_beta split: thread_state.splits option.splits)

lemma step_thread_next:
  "case thread e of
     T_none \<Rightarrow> thread (fst (preload_thread_step eng cb i e)) = T_none
   | T_exited \<Rightarrow> thread (fst (preload_thread_step eng cb i e)) = T_exited
   | T_start \<Rightarrow> thread (fst (preload_thread_step eng cb i e)) = T_open
                 \<or> thread (fst (preload_thread_step eng cb i e)) = T_exited
   | T_open \<Rightarrow> thread (fst (preload_thread_step eng cb i e)) = T_opened
                \<or> thread (fst (preload_thread_step eng cb i e)) = T_exited
   | T_opened \<Rightarrow> thread (fst (preload_thread_step eng cb i e)) = T_test False
   | T_test b \<Rightarrow> thread (fst (preload_thread_step eng cb i e)) = T_body b
                  \<or> thread (fst (preload_thread_step eng cb i e)) = T_exited
   | T_body b \<Rightarrow> thread (fst (preload_thread_step eng cb i e)) = T_test b
                  \<or> thread (fst (preload_thread_step eng cb i e)) = T_test True"
  by (auto simp: preload_thread_step_def Let_def split_beta
        split: thread_state.splits option.splits)

lemma step_may_notify:
  assumes "may_notify (thread (fst (preload_thread_step eng cb i e))) rest"
  shows "may_notify (thread e) (callback_statuses (snd (preload_thread_step eng cb i e)) @ rest)"
proof (cases "thread e")
  case T_none
  with assms step_thread_next [of eng cb i e] show ?thesis
    by (simp add: step_callback_statuses)
next
  case T_start
  with assms step_thread_next [of eng cb i e] show ?thesis
    by (auto simp: step_callback_statuses)
next
  case T_open
  with assms step_thread_next [of eng cb i e] show ?thesis
    by (auto simp: step_callback_statuses)
next
  case T_opened
  with assms step_thread_next [of eng cb i e] show ?thesis
    by (auto simp: step_callback_statuses)
next
  case (T_test b)
  with assms step_thread_next [of eng cb i e] show ?thesis
    by (auto simp: step_callback_statuses)
next
  case (T_body b)
  with assms step_thread_next [of eng cb i e] show ?thesis
    by (cases b) (auto simp: step_callback_statuses)
next
  case T_exited
  with assms step_thread_next [of eng cb i e] show ?thesis
    by (simp add: step_callback_statuses)
qed

lemma thread_run_may_notify:
  "may_notify (thread e) (callback_statuses (concat (map snd (thread_run envs i e))))"
proof (induction envs arbitrary: e)
  case Nil
  show ?case by (cases "thread e") simp_all
next
  case (Cons env envs)
  obtain eng cb x where env: "env = (eng, cb, x)" by (cases env)
  let ?e0 = "interfere x i e"
  let ?e1 = "fst (preload_thread_step eng cb i ?e0)"
  from step_may_notify [OF Cons.IH [of ?e1]] env
  show ?case by (simp add: Let_def)
qed

lemma may_notify_cases:
  "may_notify pc cbs \<Longrightarrow>
   cbs = [] \<or> cbs = [MPV_PRELOAD_STATUS_ERROR] \<or> cbs = [MPV_PRELOAD_STATUS_READY]
   \<or> cbs = [MPV_PRELOAD_STATUS_CACHED]
   \<or> cbs = [MPV_PRELOAD_STATUS_READY, MPV_PRELOAD_STATUS_CACHED]"
  by (cases pc) auto

lemma may_notify_start_cases:
  "may_notify T_start cbs \<Longrightarrow>
   subseq cbs [MPV_PRELOAD_STATUS_NONE, MPV_PRELOAD_STATUS_LOADING, MPV_PRELOAD_STATUS_READY,
               MPV_PRELOAD_STATUS_CACHED]
   \<or> subseq cbs [MPV_PRELOAD_STATUS_NONE, MPV_PRELOAD_STATUS_LOADING, MPV_PRELOAD_STATUS_ERROR]"
  by auto

lemma action_slot:
  assumes inv: "cache_inv c" and a: "apply_action eng a c = Some (c1, tr)"
    and kl: "k < length (entries c)"
  shows "entries c1 ! k = entries c ! k
         \<or> url (entries c1 ! k) = None
         \<or> (url (entries c1 ! k) \<noteq> None \<and> url (entries c1 ! k) \<noteq> url (entries c ! k)
             \<and> status (entries c1 ! k) = MPV_PRELOAD_STATUS_LOADING
             \<and> thread (entries c1 ! k) = T_start)
         \<or> (\<exists>eng2 cb i. entries c1 ! k = fst (preload_thread_step eng2 cb i (entries c ! k)))"
proof (cases a)
  case (Start now created u opts)
  with a obtain ret where r: "mpv_preload_start eng now created u opts c = Some (ret, c1, tr)"
    by (auto split: option.splits)
  show ?thesis
  proof (cases "u = None \<or> u = Some []")
    case True
    from start_rejected [OF this, of eng now created opts c] r show ?thesis by simp
  next
    case False
    then obtain L where L: "u = Some L" "L \<noteq> []" by auto
    show ?thesis
    proof (cases "find_entry_locked L c")
      case (Some j)
      from start_existing [OF L(2) Some, of eng now created opts] r L show ?thesis by auto
    next
      case None
      let ?c0 = "ensure_initialized c"
      from start_new_entry [OF inv L(2) None] r L
      obtain k' c2 evs where ff: "find_free_slot_locked eng ?c0 = Some (Some k', c2, evs)"
        and k2: "k' < length (entries c2)"
        and c1: "c1 = c2\<lparr> entries := (entries c2)
                           [k' := (if created
                                  then (init_entry (entries c2 ! k') L now opts)
                                         \<lparr> thread := T_start, thread_running := True \<rparr>
                                  else (init_entry (entries c2 ! k') L now opts)
                                         \<lparr> url := None, status := MPV_PRELOAD_STATUS_NONE \<rparr>)] \<rparr>"
        by blast
      from find_free_slot_returns [OF cache_inv_ensure_initialized [OF inv], of eng] ff
      have alt: "c2 = ?c0 \<or> c2 = ?c0\<lparr> entries := (entries ?c0)[k' := zero_entry] \<rparr>"
        by auto
      have nf: "\<forall>e \<in> set (entries c). url e \<noteq> Some L"
        using None by (simp add: find_entry_locked_None_iff)
      show ?thesis
      proof (cases "k = k'")
        case True
        have "url (entries c ! k) \<noteq> Some L" using nf kl by (auto dest: nth_mem)
        with True c1 k2 show ?thesis by (auto simp: init_entry_def)
      next
        case False
        with c1 alt have "entries c1 ! k = entries c ! k" by auto
        then show ?thesis by simp
      qed
    qed
  qed
next
  case (GetInfo u info)
  with a show ?thesis by (auto split: prod.splits)
next
  case (GetDemuxer u)
  with a obtain ret where r: "mpv_preload_get_demuxer eng u c = Some (ret, c1, tr)"
    by (auto split: option.splits)
  show ?thesis
  proof (cases ret)
    case None
    with get_demuxer_null_unchanged [OF inv, of eng u c1 tr] r show ?thesis by simp
  next
    case (Some d)
    with r obtain L where L: "u = Some L" by (cases u) (auto simp: get_demuxer_absent)
    from get_demuxer_nonnull_iff [OF inv, of eng L] r L Some
    obtain i where cl: "claimable L c i" by blast
    from get_demuxer_success [OF inv cl, of eng] r L
    obtain e4 where "c1 = c\<lparr> entries := (entries c)[i := e4] \<rparr>" "url e4 = None" by auto
    with kl show ?thesis by (cases "k = i") auto
  qed
next
  case (Cancel u)
  with a obtain ret where r: "mpv_preload_cancel eng u c = Some (ret, c1, tr)"
    by (auto split: option.splits)
  show ?thesis
  proof (cases u)
    case None
    with r show ?thesis by (simp add: cancel_absent)
  next
    case (Some L)
    show ?thesis
    proof (cases "\<not> initialized c \<or> find_entry_locked L c = None")
      case True
      from cancel_not_found [OF this, of eng] r Some show ?thesis by auto
    next
      case False
      then obtain i where ini: "initialized c" and f: "find_entry_locked L c = Some i" by auto
      from cancel_found [OF inv ini f, of eng] r Some
      have "c1 = c\<lparr> entries := (entries c)[i := zero_entry] \<rparr>" by auto
      with kl show ?thesis by (cases "k = i") auto
    qed
  qed
next
  case ClearAll
  with a clear_all_returns [OF inv, of eng]
  have f: "\<forall>e \<in> set (entries c1). url e = None" and i1: "cache_inv c1" by auto
  from i1 inv kl have "k < length (entries c1)" by (simp add: cache_inv_def)
  with f show ?thesis by (auto dest: nth_mem)
next
  case (SetCallback cb)
  with a show ?thesis by (auto simp: mpv_preload_set_callback_def)
next
  case (WorkerStep i)
  with a have c1: "c1 = fst (worker_step eng i c)" by auto
  show ?thesis
  proof (cases "k = i")
    case True
    with c1 kl have "entries c1 ! k
        = fst (preload_thread_step eng (g_preload_callback c) i (entries c ! k))"
      by (simp add: worker_step_def split_beta)
    then show ?thesis by blast
  next
    case False
    with c1 have "entries c1 ! k = entries c ! k"
      by (simp add: worker_step_def split_beta)
    then show ?thesis by simp
  qed
qed

lemma small_entry_run_statuses:
  "map (\<lambda>r. status (fst r))
     (thread_run [(demo_engine, Some 3, NoInterference), (demo_engine, Some 3, NoInterference),
               (demo_engine, Some 3, NoInterference), (demo_engine, Some 3, NoInterference),
               (demo_engine, Some 3, NoInterference), (demo_engine, Some 3, SoftStop)]
        0 small_entry)
   = [MPV_PRELOAD_STATUS_LOADING, MPV_PRELOAD_STATUS_LOADING, MPV_PRELOAD_STATUS_READY,
      MPV_PRELOAD_STATUS_READY, MPV_PRELOAD_STATUS_CACHED, MPV_PRELOAD_STATUS_CACHED]"
  by code_simp

lemma small_entry_run_callbacks:
  "callback_statuses (concat (map snd
     (thread_run [(demo_engine, Some 3, NoInterference), (demo_engine, Some 3, NoInterference),
               (demo_engine, Some 3, NoInterference), (demo_engine, Some 3, NoInterference),
               (demo_engine, Some 3, NoInterference), (demo_engine, Some 3, SoftStop)]
        0 small_entry)))
   = [MPV_PRELOAD_STATUS_READY, MPV_PRELOAD_STATUS_CACHED]"
  by code_simp

lemma entry_inv_small_entry: "entry_inv small_entry"
  by (simp add: entry_inv_def small_entry_def init_entry_def zero_entry_def)

lemma start_small_eval:
  "apply_action demo_engine
     (Start 100 True (Some ''a'')
        (Some \<lparr> opts_max_bytes = 1000, opts_readahead_secs = Finite 1 \<rparr>)) initial_state
   = Some (table_of [small_entry, zero_entry, zero_entry, zero_entry],
           [MutexLock, ThreadCreate 0, MutexUnlock])"
  by (simp add: mpv_preload_start_def ensure_initialized_def find_entry_locked_def
        find_free_slot_locked_def initial_state_def MPV_PRELOAD_MAX_ENTRIES_def numeral_eq_Suc
        table_of_def small_entry_def init_entry_def)

lemma fill_preload_info_status [simp]: "info_status (fill_preload_info eng e) = status e"
  by (simp add: fill_preload_info_def Let_def split: option.splits)

lemma step_callback_events:
  assumes "Callback f u info \<in> set (snd (preload_thread_step eng cb i e))"
  shows "cb = Some f \<and> u = url e
         \<and> (info_status info = MPV_PRELOAD_STATUS_READY
            \<or> info_status info = MPV_PRELOAD_STATUS_CACHED
            \<or> info_status info = MPV_PRELOAD_STATUS_ERROR)
         \<and> info_status info = status (fst (preload_thread_step eng cb i e))
         \<and> callback_info (fst (preload_thread_step eng cb i e)) = info
         \<and> fill_preload_info eng (fst (preload_thread_step eng cb i e)) = info"
  using assms
  by (auto simp: preload_thread_step_def invoke_callback_def Let_def split_beta
        fill_preload_info_def
        split: thread_state.splits option.splits if_splits)

lemma step_poll:
  assumes "thread e = T_body False" "demuxer e = Some d"
  shows "if max_bytes e \<le> fw_bytes (demux_get_reader_state eng d)
            \<or> eof_cached (demux_get_reader_state eng d)
         then status (fst (preload_thread_step eng cb i e)) = MPV_PRELOAD_STATUS_CACHED
              \<and> thread (fst (preload_thread_step eng cb i e)) = T_test True
              \<and> callback_statuses (snd (preload_thread_step eng cb i e))
                  = (case cb of None \<Rightarrow> [] | Some f \<Rightarrow> [MPV_PRELOAD_STATUS_CACHED])
         else fst (preload_thread_step eng cb i e) = e\<lparr> thread := T_test False \<rparr>
              \<and> callback_statuses (snd (preload_thread_step eng cb i e)) = []"
  using assms
  by (auto simp: preload_thread_step_def invoke_callback_def Let_def split_beta
        fill_preload_info_def split: option.splits)

lemma step_no_poll:
  assumes "thread e = T_body True"
  shows "preload_thread_step eng cb i e = (e\<lparr> thread := T_test True \<rparr>, [CancelWait i])"
  using assms by (simp add: preload_thread_step_def)

lemma may_notify_once:
  "may_notify pc cbs \<Longrightarrow>
   set cbs \<subseteq> {MPV_PRELOAD_STATUS_READY, MPV_PRELOAD_STATUS_CACHED, MPV_PRELOAD_STATUS_ERROR}
   \<and> length (filter (\<lambda>s. s = MPV_PRELOAD_STATUS_CACHED) cbs) \<le> 1"
  using may_notify_cases [of pc cbs] by auto

lemma polling_entry_sel:
  "thread polling_entry = T_body False" "demuxer polling_entry = Some 7"
  "max_bytes polling_entry = 1000" "url polling_entry = Some ''a''"
  by (simp_all add: polling_entry_def small_entry_def init_entry_def)

lemma polling_step_events:
  "snd (preload_thread_step demo_engine (Some 3) 0 polling_entry)
     = [Callback 3 (Some ''a'')
          (fill_preload_info demo_engine
             (polling_entry\<lparr> status := MPV_PRELOAD_STATUS_CACHED \<rparr>)),
        CancelWait 0]"
  by (simp add: preload_thread_step_def invoke_callback_def polling_entry_sel Let_def
        demo_engine_def)

section \<open>The specification's claims\<close>

text \<open>
  Claim C5 (claim precondition, and atomicity on failure). In a state of the table that
  satisfies its invariants, \<open>mpv_preload_get_demuxer\<close> returns a demuxer for the
  locator \<open>L\<close> exactly when some entry has this locator, a demuxer that is not null,
  and a status that is neither NONE nor ERROR. The call always returns, and whenever it
  returns null (for a locator that may also be the null pointer) the state it leaves is
  the state it found.
\<close>

theorem claim_precondition:
  assumes "cache_inv c"
  shows "((\<exists>d c1 tr. mpv_preload_get_demuxer eng (Some L) c = Some (Some d, c1, tr))
          \<longleftrightarrow> (\<exists>i < length (entries c). url (entries c ! i) = Some L
                 \<and> demuxer (entries c ! i) \<noteq> None
                 \<and> status (entries c ! i) \<noteq> MPV_PRELOAD_STATUS_NONE
                 \<and> status (entries c ! i) \<noteq> MPV_PRELOAD_STATUS_ERROR))
         \<and> (\<exists>r. mpv_preload_get_demuxer eng u c = Some r)
         \<and> (\<forall>c1 tr. mpv_preload_get_demuxer eng u c = Some (None, c1, tr) \<longrightarrow> c1 = c)"
  using get_demuxer_nonnull_iff [OF assms, of eng L] claimable_iff [OF assms, of L]
    get_demuxer_returns [OF assms, of eng u] get_demuxer_null_unchanged [OF assms, of eng u]
  by blast

theorem claim_precondition_witness:
  "cache_inv one_ready
   \<and> (\<exists>d c1 tr. mpv_preload_get_demuxer demo_engine (Some ''a'') one_ready
                    = Some (Some d, c1, tr))
   \<and> mpv_preload_get_demuxer demo_engine (Some ''b'') one_ready
       = Some (None, one_ready, [MutexLock, MutexUnlock])"
proof -
  have h: "cache_inv one_ready" by (rule cache_inv_one_ready)
  have e: "\<exists>i < length (entries one_ready). url (entries one_ready ! i) = Some ''a''
             \<and> demuxer (entries one_ready ! i) \<noteq> None
             \<and> status (entries one_ready ! i) \<noteq> MPV_PRELOAD_STATUS_NONE
             \<and> status (entries one_ready ! i) \<noteq> MPV_PRELOAD_STATUS_ERROR"
    by (intro exI [of _ 0]) (simp add: one_ready_def ready_entry_def)
  have b: "mpv_preload_get_demuxer demo_engine (Some ''b'') one_ready
             = Some (None, one_ready, [MutexLock, MutexUnlock])"
    by (simp add: mpv_preload_get_demuxer_def find_entry_locked_def one_ready_def
          ready_entry_def zero_entry_def)
  from claim_precondition [OF h, of demo_engine "''a''" "Some ''b''"] e h b
  show ?thesis by blast
qed

text \<open>
  Claim C1 (exactly-once ownership handoff). In a state of the table that satisfies its
  invariants, when \<open>mpv_preload_get_demuxer\<close> returns a demuxer \<open>d\<close> for the locator
  \<open>L\<close>, that demuxer was the one of the entry of \<open>L\<close>; afterwards only the slot of
  that entry has changed, its fields \<open>url\<close>, \<open>demuxer\<close>, \<open>global\<close> and \<open>cancel\<close>
  are null, its status is NONE and its worker has returned and been joined; no entry has
  the locator
  \<open>L\<close>; \<open>mpv_preload_get_info\<close> for \<open>L\<close> returns \<open>-1\<close> with a zeroed structure
  of status NONE; and a second \<open>mpv_preload_get_demuxer\<close> for \<open>L\<close> returns null.
\<close>

theorem exactly_once_handoff:
  assumes "cache_inv c"
    and "mpv_preload_get_demuxer eng (Some L) c = Some (Some d, c1, tr)"
  shows "\<exists>i < length (entries c).
           url (entries c ! i) = Some L \<and> demuxer (entries c ! i) = Some d
           \<and> entries c1 = (entries c)[i := entries c1 ! i]
           \<and> url (entries c1 ! i) = None \<and> demuxer (entries c1 ! i) = None
           \<and> global (entries c1 ! i) = None \<and> cancel (entries c1 ! i) = None
           \<and> status (entries c1 ! i) = MPV_PRELOAD_STATUS_NONE
           \<and> \<not> thread_running (entries c1 ! i)
           \<and> (thread (entries c1 ! i) = T_exited \<or> thread (entries c1 ! i) = T_none)
           \<and> find_entry_locked L c1 = None
           \<and> mpv_preload_get_info eng1 (Some L) (Some info0) c1
               = (- 1, Some zero_info, [MutexLock, MutexUnlock])
           \<and> info_status zero_info = MPV_PRELOAD_STATUS_NONE
           \<and> mpv_preload_get_demuxer eng2 (Some L) c1
               = Some (None, c1, [MutexLock, MutexUnlock])"
proof -
  from get_demuxer_nonnull_iff [OF assms(1), of eng L] assms(2)
  obtain i where cl: "claimable L c i" by blast
  then have f: "find_entry_locked L c = Some i" and ini: "initialized c"
    by (simp_all add: claimable_def)
  from find_entry_locked_SomeD [OF f] have il: "i < length (entries c)"
    and ui: "url (entries c ! i) = Some L" by simp_all
  from get_demuxer_success [OF assms(1) cl, of eng] assms(2)
  obtain e4 where c1: "c1 = c\<lparr> entries := (entries c)[i := e4] \<rparr>"
    and di: "demuxer (entries c ! i) = Some d"
    and e4: "url e4 = None" "demuxer e4 = None" "global e4 = None" "cancel e4 = None"
      "status e4 = MPV_PRELOAD_STATUS_NONE" "\<not> thread_running e4"
    and i4: "entry_inv e4"
    by auto
  have th: "thread e4 = T_exited \<or> thread e4 = T_none"
    using i4 e4(6) by (auto simp: entry_inv_def split: thread_state.splits)
  have at: "entries c1 ! i = e4" using c1 il by simp
  have uq: "unique_urls (entries c)" using assms(1) by (simp add: cache_inv_def)
  have nf: "find_entry_locked L c1 = None"
    unfolding find_entry_locked_None_iff
  proof
    fix x assume "x \<in> set (entries c1)"
    then obtain j where j: "j < length (entries c1)" "entries c1 ! j = x"
      by (auto simp: in_set_conv_nth)
    show "url x \<noteq> Some L"
    proof (cases "j = i")
      case True
      with j at e4(1) show ?thesis by simp
    next
      case False
      with j c1 have x: "x = entries c ! j" and jl: "j < length (entries c)" by auto
      show ?thesis
      proof
        assume "url x = Some L"
        with x ui uq il jl have "i = j" unfolding unique_urls_def by (metis option.distinct(1))
        with False show False by simp
      qed
    qed
  qed
  have ini1: "initialized c1" using c1 ini by simp
  have gi: "mpv_preload_get_info eng1 (Some L) (Some info0) c1
               = (- 1, Some zero_info, [MutexLock, MutexUnlock])"
    using nf ini1 by (simp add: mpv_preload_get_info_def zero_info_def)
  have gd: "mpv_preload_get_demuxer eng2 (Some L) c1 = Some (None, c1, [MutexLock, MutexUnlock])"
    using nf ini1 by (simp add: mpv_preload_get_demuxer_def)
  have upd: "entries c1 = (entries c)[i := entries c1 ! i]" using c1 il by simp
  show ?thesis
    using il ui di upd at e4 th nf gi gd by (intro exI [of _ i]) (simp add: zero_info_def)
qed

theorem exactly_once_handoff_witness:
  "cache_inv one_ready
   \<and> (\<exists>c1 tr. mpv_preload_get_demuxer demo_engine (Some ''a'') one_ready
                  = Some (Some 7, c1, tr)
        \<and> url (entries c1 ! 0) = None \<and> demuxer (entries c1 ! 0) = None
        \<and> find_entry_locked ''a'' c1 = None
        \<and> mpv_preload_get_info demo_engine (Some ''a'') (Some zero_info) c1
            = (- 1, Some zero_info, [MutexLock, MutexUnlock])
        \<and> mpv_preload_get_demuxer demo_engine (Some ''a'') c1
            = Some (None, c1, [MutexLock, MutexUnlock]))"
proof -
  have h: "cache_inv one_ready" by (rule cache_inv_one_ready)
  let ?c1 = "one_ready\<lparr> entries :=
             [(ready_entry ''a'' 100)\<lparr> url := None, global := None, demuxer := None,
                 cancel := None, status := MPV_PRELOAD_STATUS_NONE, thread := T_exited,
                 thread_running := False, cancel_requested := True \<rparr>,
              zero_entry, zero_entry, zero_entry] \<rparr>"
  note ev = claim_one_ready_eval
  from exactly_once_handoff [OF h ev, of demo_engine zero_info demo_engine]
  obtain i where i: "i < length (entries one_ready)" "url (entries one_ready ! i) = Some ''a''"
    and rest: "url (entries ?c1 ! i) = None" "demuxer (entries ?c1 ! i) = None"
      "find_entry_locked ''a'' ?c1 = None"
      "mpv_preload_get_info demo_engine (Some ''a'') (Some zero_info) ?c1
            = (- 1, Some zero_info, [MutexLock, MutexUnlock])"
      "mpv_preload_get_demuxer demo_engine (Some ''a'') ?c1
            = Some (None, ?c1, [MutexLock, MutexUnlock])"
    by blast
  have "i = 0"
    using i by (auto simp: one_ready_def ready_entry_def zero_entry_def nth_Cons split: nat.splits)
  with rest ev h show ?thesis by blast
qed

text \<open>
  Claim C7 (one entry per locator, idempotent start). After any sequence of operations
  and worker steps from the initial table, at most one entry has the locator \<open>L\<close>. If
  moreover \<open>mpv_preload_start\<close> for \<open>L\<close> returns \<open>0\<close> and is followed by any worker
  steps, queries and registrations of the callback, a second \<open>mpv_preload_start\<close> for
  \<open>L\<close> returns \<open>0\<close> (the code has one success value for "started" and "already
  active"), changes nothing in the state (no entry added, the budget of the entry kept),
  creates no thread, and exactly one entry has the locator \<open>L\<close>, with its worker.
\<close>

theorem locator_uniqueness:
  assumes "run_actions acts initial_state = Some (c, tr)"
  shows "length (filter (\<lambda>e. url e = Some L) (entries c)) \<le> 1
         \<and> (L \<noteq> []
              \<and> mpv_preload_start eng now created (Some L) opts c = Some (0, c1, tr1)
              \<and> run_actions acts2 c1 = Some (c2, tr2)
              \<and> (\<forall>x \<in> set acts2. no_stop (snd x))
            \<longrightarrow> mpv_preload_start eng2 now2 created2 (Some L) opts2 c2
                  = Some (0, c2, [MutexLock, MutexUnlock])
                \<and> length (filter (\<lambda>e. url e = Some L) (entries c2)) = 1
                \<and> length (filter (\<lambda>e. url e = Some L \<and> thread_running e) (entries c2)) = 1)"
proof -
  have inv: "cache_inv c" using run_actions_inv [OF cache_inv_initial assms] .
  then have u: "unique_urls (entries c)" by (simp add: cache_inv_def)
  have a: "length (filter (\<lambda>e. url e = Some L) (entries c)) \<le> 1"
    using unique_urls_count [OF u] .
  have b: "mpv_preload_start eng2 now2 created2 (Some L) opts2 c2
                  = Some (0, c2, [MutexLock, MutexUnlock])
           \<and> length (filter (\<lambda>e. url e = Some L) (entries c2)) = 1
           \<and> length (filter (\<lambda>e. url e = Some L \<and> thread_running e) (entries c2)) = 1"
    if ne: "L \<noteq> []"
      and s1: "mpv_preload_start eng now created (Some L) opts c = Some (0, c1, tr1)"
      and r2: "run_actions acts2 c1 = Some (c2, tr2)"
      and ns: "\<forall>x \<in> set acts2. no_stop (snd x)"
  proof -
    have inv1: "cache_inv c1" using start_inv [OF inv s1] .
    have inv2: "cache_inv c2" using run_actions_inv [OF inv1 r2] .
    from start_success_present [OF inv ne s1] obtain i
      where f1: "find_entry_locked L c1 = Some i" by blast
    from no_stop_run_keeps [OF r2 ns]
    have urls: "map url (entries c2) = map url (entries c1)" by simp
    have f2: "find_entry_locked L c2 = Some i"
      using f1 find_entry_from_map_url [OF urls, of L 0] by (simp add: find_entry_locked_def)
    from find_entry_locked_SomeD [OF f2] have il: "i < length (entries c2)"
      and ui: "url (entries c2 ! i) = Some L" by simp_all
    have ini2: "initialized c2"
      using inv2 il ui by (auto simp: cache_inv_def dest: nth_mem)
    have s2: "mpv_preload_start eng2 now2 created2 (Some L) opts2 c2
                  = Some (0, c2, [MutexLock, MutexUnlock])"
      using start_existing [OF ne f2, of eng2 now2 created2 opts2] ini2
      by (simp add: ensure_initialized_id)
    have u2: "unique_urls (entries c2)" using inv2 by (simp add: cache_inv_def)
    have c2: "length (filter (\<lambda>e. url e = Some L) (entries c2)) = 1"
      using present_count [OF u2 il ui] .
    have "filter (\<lambda>e. url e = Some L \<and> thread_running e) (entries c2)
            = filter (\<lambda>e. url e = Some L) (entries c2)"
      using inv2 by (intro filter_cong) (auto simp: cache_inv_def)
    with s2 c2 show ?thesis by simp
  qed
  from a b show ?thesis by blast
qed

theorem locator_uniqueness_witness:
  "run_actions [] initial_state = Some (initial_state, [])
   \<and> length (filter (\<lambda>e. url e = Some ''a'') (entries initial_state)) \<le> 1
   \<and> (\<exists>c1 tr1 c2 tr2.
         mpv_preload_start demo_engine 100 True (Some ''a'') None initial_state
           = Some (0, c1, tr1)
         \<and> run_actions [(demo_engine, WorkerStep 0), (demo_engine, WorkerStep 0),
                         (demo_engine, GetInfo (Some ''a'') (Some zero_info))] c1
             = Some (c2, tr2)
         \<and> mpv_preload_start demo_engine 200 True (Some ''a'')
               (Some \<lparr> opts_max_bytes = 5, opts_readahead_secs = Finite 3 \<rparr>) c2
             = Some (0, c2, [MutexLock, MutexUnlock])
         \<and> length (filter (\<lambda>e. url e = Some ''a'') (entries c2)) = 1
         \<and> length (filter (\<lambda>e. url e = Some ''a'' \<and> thread_running e) (entries c2)) = 1)"
proof -
  have r0: "run_actions [] initial_state = Some (initial_state, [])" by simp
  have ne: "''a'' \<noteq> []" by simp
  have ns: "\<forall>x \<in> set [(demo_engine, WorkerStep 0), (demo_engine, WorkerStep 0),
                         (demo_engine, GetInfo (Some ''a'') (Some zero_info))]. no_stop (snd x)"
    by simp
  from locator_uniqueness [OF r0, of "''a''" demo_engine 100 True None _ _ _ _ _
      demo_engine 200 True "Some \<lparr> opts_max_bytes = 5, opts_readahead_secs = Finite 3 \<rparr>"]
    ne start_a_eval worker_steps_a_eval ns r0
  show ?thesis by blast
qed

text \<open>
  Claim C8 (input handling of start). \<open>mpv_preload_start\<close> returns \<open>-1\<close> for a null
  or an empty locator and leaves the state as it was, taking no lock. For a locator that
  is not empty and not yet present, when the thread is created, it returns \<open>0\<close> and the
  entry of the locator has \<open>max_bytes\<close> equal to the given value when that is positive
  and to 10 MiB otherwise (also for null options), and \<open>readahead_secs\<close> equal to the
  given value when that is greater than zero and to 10.0 otherwise (also for null
  options, and for a NaN). A step of the worker changes neither value.
\<close>

theorem start_input_handling:
  assumes "cache_inv c"
  shows "mpv_preload_start eng now created None opts c = Some (- 1, c, [])
         \<and> mpv_preload_start eng now created (Some []) opts c = Some (- 1, c, [])
         \<and> (u \<noteq> [] \<and> find_entry_locked u c = None \<longrightarrow>
              (\<exists>c1 tr i. mpv_preload_start eng now True (Some u) opts c = Some (0, c1, tr)
                 \<and> find_entry_locked u c1 = Some i
                 \<and> max_bytes (entries c1 ! i) =
                     (case opts of
                        None \<Rightarrow> 10485760
                      | Some ob \<Rightarrow> if 0 < opts_max_bytes ob then opts_max_bytes ob else 10485760)
                 \<and> readahead_secs (entries c1 ! i) =
                     (case opts of
                        None \<Rightarrow> Finite 10
                      | Some ob \<Rightarrow> if double_gt_zero (opts_readahead_secs ob)
                                   then opts_readahead_secs ob else Finite 10)
                 \<and> max_bytes (fst (preload_thread_step eng2 cb i (entries c1 ! i)))
                     = max_bytes (entries c1 ! i)
                 \<and> readahead_secs (fst (preload_thread_step eng2 cb i (entries c1 ! i)))
                     = readahead_secs (entries c1 ! i)))"
proof -
  have a: "mpv_preload_start eng now created None opts c = Some (- 1, c, [])"
    by (simp add: start_rejected)
  have b: "mpv_preload_start eng now created (Some []) opts c = Some (- 1, c, [])"
    by (simp add: start_rejected)
  have n: "\<exists>c1 tr i. mpv_preload_start eng now True (Some u) opts c = Some (0, c1, tr)
                 \<and> find_entry_locked u c1 = Some i
                 \<and> max_bytes (entries c1 ! i) =
                     (case opts of
                        None \<Rightarrow> 10485760
                      | Some ob \<Rightarrow> if 0 < opts_max_bytes ob then opts_max_bytes ob else 10485760)
                 \<and> readahead_secs (entries c1 ! i) =
                     (case opts of
                        None \<Rightarrow> Finite 10
                      | Some ob \<Rightarrow> if double_gt_zero (opts_readahead_secs ob)
                                   then opts_readahead_secs ob else Finite 10)
                 \<and> max_bytes (fst (preload_thread_step eng2 cb i (entries c1 ! i)))
                     = max_bytes (entries c1 ! i)
                 \<and> readahead_secs (fst (preload_thread_step eng2 cb i (entries c1 ! i)))
                     = readahead_secs (entries c1 ! i)"
    if ne: "u \<noteq> []" and nf: "find_entry_locked u c = None"
  proof -
    from start_new [OF assms ne nf, of eng now True opts]
    obtain c1 tr where r: "mpv_preload_start eng now True (Some u) opts c = Some (0, c1, tr)"
      by auto
    from start_new_entry [OF assms ne nf r]
    obtain k c2 where kl: "k < length (entries c2)"
      and c1: "c1 = c2\<lparr> entries := (entries c2)
                 [k := (init_entry (entries c2 ! k) u now opts)
                          \<lparr> thread := T_start, thread_running := True \<rparr>] \<rparr>"
      by auto
    have inv1: "cache_inv c1" using start_inv [OF assms r] .
    have at: "entries c1 ! k = (init_entry (entries c2 ! k) u now opts)
                          \<lparr> thread := T_start, thread_running := True \<rparr>"
      using c1 kl by simp
    have kl1: "k < length (entries c1)" using c1 kl by simp
    have "url (entries c1 ! k) = Some u" using at by (simp add: init_entry_def)
    from find_entry_locked_unique [OF _ kl1 this] inv1
    have f: "find_entry_locked u c1 = Some k" by (simp add: cache_inv_def)
    show ?thesis
      using r f at
      by (intro exI [of _ c1] exI [of _ tr] exI [of _ k])
         (simp add: init_entry_def step_frame split: option.splits)
  qed
  from a b n show ?thesis by blast
qed

theorem start_input_handling_witness:
  "cache_inv initial_state
   \<and> mpv_preload_start demo_engine 100 True None None initial_state
       = Some (- 1, initial_state, [])
   \<and> mpv_preload_start demo_engine 100 True (Some []) None initial_state
       = Some (- 1, initial_state, [])
   \<and> ''a'' \<noteq> [] \<and> find_entry_locked ''a'' initial_state = None
   \<and> (\<exists>c1 tr i. mpv_preload_start demo_engine 100 True (Some ''a'')
                     (Some \<lparr> opts_max_bytes = 0, opts_readahead_secs = Finite 3 \<rparr>)
                     initial_state = Some (0, c1, tr)
         \<and> find_entry_locked ''a'' c1 = Some i
         \<and> max_bytes (entries c1 ! i) = 10485760
         \<and> readahead_secs (entries c1 ! i) = Finite 3)"
proof -
  have nf: "find_entry_locked ''a'' initial_state = None"
    by (simp add: find_entry_locked_def initial_entries)
  from start_input_handling [OF cache_inv_initial, of demo_engine 100 True None "''a''"]
  have a: "mpv_preload_start demo_engine 100 True None None initial_state
             = Some (- 1, initial_state, [])"
    and b: "mpv_preload_start demo_engine 100 True (Some []) None initial_state
             = Some (- 1, initial_state, [])"
    by simp_all
  from start_input_handling [OF cache_inv_initial, of demo_engine 100 True
      "Some \<lparr> opts_max_bytes = 0, opts_readahead_secs = Finite 3 \<rparr>" "''a''"
      demo_engine None] nf
  have "\<exists>c1 tr i. mpv_preload_start demo_engine 100 True (Some ''a'')
                     (Some \<lparr> opts_max_bytes = 0, opts_readahead_secs = Finite 3 \<rparr>)
                     initial_state = Some (0, c1, tr)
         \<and> find_entry_locked ''a'' c1 = Some i
         \<and> max_bytes (entries c1 ! i) = 10485760
         \<and> readahead_secs (entries c1 ! i) = Finite 3"
    by simp blast
  with a b nf cache_inv_initial show ?thesis by simp
qed

text \<open>
  Claim C9 (rollback when the thread cannot be created). In a state that satisfies the
  invariants, when \<open>mpv_preload_start\<close> is called for a locator that is not empty and
  not present and \<open>mp_thread_create\<close> fails, the call returns \<open>-1\<close> (the
  code's one failure value), no thread is created, the slot it had initialised has a null
  locator and status NONE, the locator is not present, and the invariants hold. The slot
  is reusable: a later \<open>mpv_preload_start\<close> for the locator whose thread is created
  returns \<open>0\<close>, takes a free slot without evicting any entry, and the locator is
  present afterwards.
\<close>

theorem start_rollback:
  assumes "cache_inv c" and "u \<noteq> []" and "find_entry_locked u c = None"
  shows "\<exists>c1 tr k. mpv_preload_start eng now False (Some u) opts c = Some (- 1, c1, tr)
           \<and> k < length (entries c1)
           \<and> url (entries c1 ! k) = None
           \<and> status (entries c1 ! k) = MPV_PRELOAD_STATUS_NONE
           \<and> \<not> thread_running (entries c1 ! k)
           \<and> (\<forall>i. ThreadCreate i \<notin> set tr)
           \<and> find_entry_locked u c1 = None
           \<and> cache_inv c1
           \<and> (\<exists>j c2. j \<le> k \<and> first_free_from (entries c1) 0 = Some j
                 \<and> mpv_preload_start eng2 now2 True (Some u) opts2 c1
                     = Some (0, c2, [MutexLock, ThreadCreate j, MutexUnlock])
                 \<and> find_entry_locked u c2 = Some j)"
proof -
  from start_new [OF assms, of eng now False opts]
  obtain c1 tr where r: "mpv_preload_start eng now False (Some u) opts c = Some (- 1, c1, tr)"
    by auto
  from start_new_entry [OF assms r]
  obtain k c2 evs where ff: "find_free_slot_locked eng (ensure_initialized c) = Some (Some k, c2, evs)"
    and kl: "k < length (entries c2)"
    and nf2: "\<forall>e \<in> set (entries c2). url e \<noteq> Some u"
    and inv2: "cache_inv c2"
    and c1: "c1 = c2\<lparr> entries := (entries c2)
                 [k := (init_entry (entries c2 ! k) u now opts)
                          \<lparr> url := None, status := MPV_PRELOAD_STATUS_NONE \<rparr>] \<rparr>"
    and tr: "tr = [MutexLock] @ evs @ [MutexUnlock]"
    by auto
  let ?e = "(init_entry (entries c2 ! k) u now opts)
                          \<lparr> url := None, status := MPV_PRELOAD_STATUS_NONE \<rparr>"
  have inv1: "cache_inv c1" using start_inv [OF assms(1) r] .
  have kl1: "k < length (entries c1)" using c1 kl by simp
  have at: "entries c1 ! k = ?e" using c1 kl by simp
  have old: "entry_inv (entries c2 ! k)"
    and "url (entries c2 ! k) \<noteq> None \<longrightarrow> thread_running (entries c2 ! k)"
    using inv2 kl by (simp_all add: cache_inv_def)
  have einv: "entry_inv (entries c1 ! k)" using inv1 kl1 by (simp add: cache_inv_def)
  have u1: "url (entries c1 ! k) = None" and s1: "status (entries c1 ! k) = MPV_PRELOAD_STATUS_NONE"
    using at by simp_all
  have t1: "\<not> thread_running (entries c1 ! k)" using einv u1 by (simp add: entry_inv_def)
  have nf1: "find_entry_locked u c1 = None"
    unfolding find_entry_locked_None_iff
    using nf2 c1 set_update_subset_insert [of "entries c2" k ?e] by auto
  have notc: "\<forall>i. ThreadCreate i \<notin> set tr"
  proof (intro allI notI)
    fix i assume "ThreadCreate i \<in> set tr"
    with tr have in_evs: "ThreadCreate i \<in> set evs" by simp
    from find_free_slot_returns [OF cache_inv_ensure_initialized [OF assms(1)], of eng] ff
    have kc: "k < length (entries c)"
      and "evs = [] \<or> cleanup_entry eng (g_preload_callback (ensure_initialized c)) k
                         (entries (ensure_initialized c) ! k) = Some (zero_entry, evs)"
      by auto
    from this(2) show False
    proof
      assume "evs = []"
      with in_evs show False by simp
    next
      assume cl: "cleanup_entry eng (g_preload_callback (ensure_initialized c)) k
                         (entries (ensure_initialized c) ! k) = Some (zero_entry, evs)"
      have "entry_inv (entries (ensure_initialized c) ! k)"
        using assms(1) kc by (simp add: cache_inv_def)
      from cleanup_entry_events [OF this cl] in_evs show False
        by (auto simp: is_worker_event_def)
    qed
  qed
  from first_free_from_present [OF kl1 u1, of 0]
  obtain j where j: "first_free_from (entries c1) 0 = Some j" "j \<le> k" by auto
  from first_free_from_SomeD [OF j(1)] have jl: "j < length (entries c1)" by auto
  let ?c2 = "(ensure_initialized c1)\<lparr> entries := (entries c1)
                    [j := (init_entry (entries c1 ! j) u now2 opts2)
                                  \<lparr> thread := T_start, thread_running := True \<rparr>] \<rparr>"
  have s2: "mpv_preload_start eng2 now2 True (Some u) opts2 c1
              = Some (0, ?c2, [MutexLock, ThreadCreate j, MutexUnlock])"
    using start_in_free_slot [OF inv1 assms(2) nf1 j(1), of eng2 now2 True opts2] by simp
  have inv2': "cache_inv ?c2" using start_inv [OF inv1 s2] .
  have "url (entries ?c2 ! j) = Some u" using jl by (simp add: init_entry_def)
  moreover have "j < length (entries ?c2)" using jl by simp
  ultimately have f2: "find_entry_locked u ?c2 = Some j"
    using find_entry_locked_unique [of ?c2 j u] inv2' by (simp add: cache_inv_def)
  show ?thesis
    using r kl1 u1 s1 t1 notc nf1 inv1 j s2 f2
    by (intro exI [of _ c1] exI [of _ tr] exI [of _ k]) blast
qed

theorem start_rollback_witness:
  "cache_inv initial_state \<and> ''a'' \<noteq> [] \<and> find_entry_locked ''a'' initial_state = None
   \<and> (\<exists>c1 tr. mpv_preload_start demo_engine 100 False (Some ''a'') None initial_state
                  = Some (- 1, c1, tr)
        \<and> url (entries c1 ! 0) = None
        \<and> status (entries c1 ! 0) = MPV_PRELOAD_STATUS_NONE
        \<and> find_entry_locked ''a'' c1 = None
        \<and> (\<exists>c2. mpv_preload_start demo_engine 200 True (Some ''a'') None c1
                    = Some (0, c2, [MutexLock, ThreadCreate 0, MutexUnlock])
              \<and> find_entry_locked ''a'' c2 = Some 0))"
proof -
  have nf: "find_entry_locked ''a'' initial_state = None"
    by (simp add: find_entry_locked_def initial_entries)
  have ne: "''a'' \<noteq> []" by simp
  from start_rollback [OF cache_inv_initial ne nf, of demo_engine 100 None demo_engine 200 None]
  obtain c1 tr k j c2 where
    r: "mpv_preload_start demo_engine 100 False (Some ''a'') None initial_state
          = Some (- 1, c1, tr)"
    and k: "k < length (entries c1)" "url (entries c1 ! k) = None"
      "status (entries c1 ! k) = MPV_PRELOAD_STATUS_NONE"
    and nf1: "find_entry_locked ''a'' c1 = None"
    and j: "j \<le> k" "mpv_preload_start demo_engine 200 True (Some ''a'') None c1
                     = Some (0, c2, [MutexLock, ThreadCreate j, MutexUnlock])"
      "find_entry_locked ''a'' c2 = Some j"
    by blast
  have ev: "mpv_preload_start demo_engine 100 False (Some ''a'') None initial_state
          = Some (- 1, table_of [(init_entry zero_entry ''a'' 100 None)
                                   \<lparr> url := None, status := MPV_PRELOAD_STATUS_NONE \<rparr>,
                                 zero_entry, zero_entry, zero_entry],
                  [MutexLock, MutexUnlock])"
    by (simp add: mpv_preload_start_def ensure_initialized_def find_entry_locked_def
        find_free_slot_locked_def initial_state_def MPV_PRELOAD_MAX_ENTRIES_def numeral_eq_Suc
        table_of_def init_entry_def)
  with r have c1: "c1 = table_of [(init_entry zero_entry ''a'' 100 None)
                                   \<lparr> url := None, status := MPV_PRELOAD_STATUS_NONE \<rparr>,
                                 zero_entry, zero_entry, zero_entry]" by simp
  have "first_free_from (entries c1) 0 = Some 0" using c1 by (simp add: table_of_def)
  have s2: "mpv_preload_start demo_engine 200 True (Some ''a'') None c1
              = Some (0, table_of [(init_entry ((init_entry zero_entry ''a'' 100 None)
                                   \<lparr> url := None, status := MPV_PRELOAD_STATUS_NONE \<rparr>)
                                      ''a'' 200 None)
                                     \<lparr> thread := T_start, thread_running := True \<rparr>,
                                   zero_entry, zero_entry, zero_entry],
                      [MutexLock, ThreadCreate 0, MutexUnlock])"
    unfolding c1
    by (simp add: mpv_preload_start_def ensure_initialized_def find_entry_locked_def
        find_free_slot_locked_def table_of_def init_entry_def)
  with j(2) have j0: "j = 0" by simp
  have u0: "url (entries c1 ! 0) = None" "status (entries c1 ! 0) = MPV_PRELOAD_STATUS_NONE"
    using c1 by (simp_all add: table_of_def)
  from r u0 nf1 j j0 nf ne cache_inv_initial show ?thesis by blast
qed







text \<open>
  Claim C10 (lock discipline: the mutex is never held while a worker is joined) fails on
  the code in the eviction inside \<open>mpv_preload_start\<close>. The function takes the mutex,
  \<open>find_free_slot_locked\<close> calls \<open>cleanup_entry\<close> on the oldest entry, and
  \<open>cleanup_entry\<close> joins the worker of that entry (whose thread is still running) before
  the mutex is released. The comment of \<open>cleanup_entry\<close> asks its callers either not to
  hold the mutex or to have joined the thread themselves, which \<open>mpv_preload_cancel\<close>
  and \<open>mpv_preload_clear_all\<close> do. The theorem evaluates the start of a fifth locator
  on a table of four started entries: the join of slot 0 stands between the lock and
  the unlock.
\<close>

theorem eviction_joins_under_lock:
  "mpv_preload_start demo_engine 5 True (Some ''e'') None full_table
     = Some (0, full_table_evicted,
             [MutexLock, ThreadJoin 0, DemuxStartPrefetch 0 7, DemuxCancelAndFree 0 7,
              ThreadCreate 0, MutexUnlock])
   \<and> \<not> joins_outside_lock False
          [MutexLock, ThreadJoin 0, DemuxStartPrefetch 0 7, DemuxCancelAndFree 0 7,
           ThreadCreate 0, MutexUnlock]"
  using evict_eval by simp

text \<open>
  Claim C4 (status monotonicity). In a state that satisfies the invariants, whatever an
  operation or a worker step does, for every slot:
  \<^item> if the slot holds the same locator before and after, its status after is reachable
    from its status before along NONE \<open>\<rightarrow>\<close> LOADING \<open>\<rightarrow>\<close> READY \<open>\<rightarrow>\<close> CACHED or
    LOADING \<open>\<rightarrow>\<close> ERROR;
  \<^item> if the slot was free and is occupied, its status went from NONE to LOADING, and its
    worker is at its start; and an entry that replaces another one starts at LOADING too.

  Along any run of one worker, with any interference of the operations that leave the
  entry in place, each status is reachable from every earlier one, CACHED and ERROR are
  followed only by themselves, and the statuses given to the callback form a subsequence
  of NONE, LOADING, READY, CACHED or of NONE, LOADING, ERROR.
\<close>

theorem status_monotonicity:
  assumes "cache_inv c" and "apply_action eng a c = Some (c1, tr)"
    and "k < length (entries c)" and "entry_inv e"
  shows "(url (entries c1 ! k) = url (entries c ! k) \<and> url (entries c ! k) \<noteq> None \<longrightarrow>
            status_reaches (status (entries c ! k)) (status (entries c1 ! k)))
         \<and> (url (entries c ! k) = None \<and> url (entries c1 ! k) \<noteq> None \<longrightarrow>
              status (entries c ! k) = MPV_PRELOAD_STATUS_NONE
              \<and> status (entries c1 ! k) = MPV_PRELOAD_STATUS_LOADING
              \<and> thread (entries c1 ! k) = T_start)
         \<and> (url (entries c1 ! k) \<noteq> None \<and> url (entries c1 ! k) \<noteq> url (entries c ! k) \<longrightarrow>
              status (entries c1 ! k) = MPV_PRELOAD_STATUS_LOADING
              \<and> thread (entries c1 ! k) = T_start)
         \<and> sorted_wrt status_reaches
              (status e # map (\<lambda>r. status (fst r)) (thread_run envs i e))
         \<and> (subseq (callback_statuses (concat (map snd (thread_run envs i e))))
               [MPV_PRELOAD_STATUS_NONE, MPV_PRELOAD_STATUS_LOADING, MPV_PRELOAD_STATUS_READY,
                MPV_PRELOAD_STATUS_CACHED]
             \<or> subseq (callback_statuses (concat (map snd (thread_run envs i e))))
                  [MPV_PRELOAD_STATUS_NONE, MPV_PRELOAD_STATUS_LOADING,
                   MPV_PRELOAD_STATUS_ERROR])
         \<and> (status_reaches s t \<longleftrightarrow> status_next\<^sup>*\<^sup>* s t)
         \<and> (status_reaches MPV_PRELOAD_STATUS_CACHED t \<longleftrightarrow> t = MPV_PRELOAD_STATUS_CACHED)
         \<and> (status_reaches MPV_PRELOAD_STATUS_ERROR t \<longleftrightarrow> t = MPV_PRELOAD_STATUS_ERROR)"
proof -
  note slot = action_slot [OF assms(1,2,3)]
  have einv: "entry_inv (entries c ! k)" using assms(1,3) by (simp add: cache_inv_def)
  have p1: "url (entries c1 ! k) = url (entries c ! k) \<and> url (entries c ! k) \<noteq> None \<longrightarrow>
            status_reaches (status (entries c ! k)) (status (entries c1 ! k))"
  proof
    assume h: "url (entries c1 ! k) = url (entries c ! k) \<and> url (entries c ! k) \<noteq> None"
    from slot h have "entries c1 ! k = entries c ! k
         \<or> (\<exists>eng2 cb i. entries c1 ! k = fst (preload_thread_step eng2 cb i (entries c ! k)))"
      by auto
    then show "status_reaches (status (entries c ! k)) (status (entries c1 ! k))"
      using step_status_reaches [OF einv] by auto
  qed
  have p2: "url (entries c ! k) = None \<and> url (entries c1 ! k) \<noteq> None \<longrightarrow>
              status (entries c ! k) = MPV_PRELOAD_STATUS_NONE
              \<and> status (entries c1 ! k) = MPV_PRELOAD_STATUS_LOADING
              \<and> thread (entries c1 ! k) = T_start"
  proof
    assume h: "url (entries c ! k) = None \<and> url (entries c1 ! k) \<noteq> None"
    then have s0: "status (entries c ! k) = MPV_PRELOAD_STATUS_NONE"
      using einv by (simp add: entry_inv_def)
    from slot h have "status (entries c1 ! k) = MPV_PRELOAD_STATUS_LOADING
             \<and> thread (entries c1 ! k) = T_start"
      by (auto simp: step_frame)
    with s0 show "status (entries c ! k) = MPV_PRELOAD_STATUS_NONE
              \<and> status (entries c1 ! k) = MPV_PRELOAD_STATUS_LOADING
              \<and> thread (entries c1 ! k) = T_start" by simp
  qed
  have p3: "url (entries c1 ! k) \<noteq> None \<and> url (entries c1 ! k) \<noteq> url (entries c ! k) \<longrightarrow>
              status (entries c1 ! k) = MPV_PRELOAD_STATUS_LOADING
              \<and> thread (entries c1 ! k) = T_start"
    using slot by (auto simp: step_frame)
  have p4: "sorted_wrt status_reaches
              (status e # map (\<lambda>r. status (fst r)) (thread_run envs i e))"
    using thread_run_statuses [OF assms(4), of envs i] by simp
  have p5: "subseq (callback_statuses (concat (map snd (thread_run envs i e))))
               [MPV_PRELOAD_STATUS_NONE, MPV_PRELOAD_STATUS_LOADING, MPV_PRELOAD_STATUS_READY,
                MPV_PRELOAD_STATUS_CACHED]
             \<or> subseq (callback_statuses (concat (map snd (thread_run envs i e))))
                  [MPV_PRELOAD_STATUS_NONE, MPV_PRELOAD_STATUS_LOADING,
                   MPV_PRELOAD_STATUS_ERROR]"
    using may_notify_cases [OF thread_run_may_notify [of e envs i]] by auto
  have p6: "status_reaches s t \<longleftrightarrow> status_next\<^sup>*\<^sup>* s t" by (rule status_reaches_rtranclp)
  have p7: "status_reaches MPV_PRELOAD_STATUS_CACHED t \<longleftrightarrow> t = MPV_PRELOAD_STATUS_CACHED"
    "status_reaches MPV_PRELOAD_STATUS_ERROR t \<longleftrightarrow> t = MPV_PRELOAD_STATUS_ERROR"
    by simp_all
  from p1 p2 p3 p4 p5 p6 p7 show ?thesis by (intro conjI)
qed

theorem status_monotonicity_witness:
  "cache_inv initial_state
   \<and> apply_action demo_engine
        (Start 100 True (Some ''a'')
           (Some \<lparr> opts_max_bytes = 1000, opts_readahead_secs = Finite 1 \<rparr>)) initial_state
       = Some (table_of [small_entry, zero_entry, zero_entry, zero_entry],
               [MutexLock, ThreadCreate 0, MutexUnlock])
   \<and> 0 < length (entries initial_state) \<and> entry_inv small_entry
   \<and> url (entries initial_state ! 0) = None
   \<and> status (entries initial_state ! 0) = MPV_PRELOAD_STATUS_NONE
   \<and> status small_entry = MPV_PRELOAD_STATUS_LOADING
   \<and> sorted_wrt status_reaches
        [MPV_PRELOAD_STATUS_LOADING,
         MPV_PRELOAD_STATUS_LOADING, MPV_PRELOAD_STATUS_LOADING, MPV_PRELOAD_STATUS_READY,
         MPV_PRELOAD_STATUS_READY, MPV_PRELOAD_STATUS_CACHED, MPV_PRELOAD_STATUS_CACHED]
   \<and> subseq [MPV_PRELOAD_STATUS_READY, MPV_PRELOAD_STATUS_CACHED]
        [MPV_PRELOAD_STATUS_NONE, MPV_PRELOAD_STATUS_LOADING, MPV_PRELOAD_STATUS_READY,
         MPV_PRELOAD_STATUS_CACHED]"
proof -
  have kl: "0 < length (entries initial_state)" by (simp add: initial_entries)
  have u0: "url (entries initial_state ! 0) = None" by (simp add: initial_entries)
  have u1: "url (entries (table_of [small_entry, zero_entry, zero_entry, zero_entry]) ! 0) \<noteq> None"
    by (simp add: table_of_def small_entry_def init_entry_def)
  note t = status_monotonicity [OF cache_inv_initial start_small_eval kl entry_inv_small_entry,
      of "[(demo_engine, Some 3, NoInterference), (demo_engine, Some 3, NoInterference),
           (demo_engine, Some 3, NoInterference), (demo_engine, Some 3, NoInterference),
           (demo_engine, Some 3, NoInterference), (demo_engine, Some 3, SoftStop)]" 0]
  from t [THEN conjunct2, THEN conjunct1] u0 u1
  have b: "status (entries initial_state ! 0) = MPV_PRELOAD_STATUS_NONE"
    "status (entries (table_of [small_entry, zero_entry, zero_entry, zero_entry]) ! 0)
       = MPV_PRELOAD_STATUS_LOADING"
    by simp_all
  then have sl: "status small_entry = MPV_PRELOAD_STATUS_LOADING" by (simp add: table_of_def)
  from t [THEN conjunct2, THEN conjunct2, THEN conjunct2, THEN conjunct1]
  have ch: "sorted_wrt status_reaches
        [MPV_PRELOAD_STATUS_LOADING,
         MPV_PRELOAD_STATUS_LOADING, MPV_PRELOAD_STATUS_LOADING, MPV_PRELOAD_STATUS_READY,
         MPV_PRELOAD_STATUS_READY, MPV_PRELOAD_STATUS_CACHED, MPV_PRELOAD_STATUS_CACHED]"
    unfolding small_entry_run_statuses sl .
  have sq: "subseq [MPV_PRELOAD_STATUS_READY, MPV_PRELOAD_STATUS_CACHED]
        [MPV_PRELOAD_STATUS_NONE, MPV_PRELOAD_STATUS_LOADING, MPV_PRELOAD_STATUS_READY,
         MPV_PRELOAD_STATUS_CACHED]"
    by simp
  from cache_inv_initial start_small_eval kl entry_inv_small_entry u0 b(1) sl ch sq
  show ?thesis by (intro conjI)
qed

text \<open>
  Claim C6 (notification discipline). Whenever a step of the worker calls the callback,
  a callback is registered, the call is for the locator of the entry, the status it
  passes is READY, CACHED or ERROR and is the status the step has just written, and the
  snapshot it passes is the one stored in the field \<open>callback_info\<close> of the entry. Along
  any run of one worker the callback never sees NONE or LOADING and sees CACHED at most
  once. At a poll (the body of the loop with \<open>target_notified\<close> false and the demuxer
  open), the status becomes CACHED and the callback is called exactly when the bytes
  cached ahead have reached \<open>max_bytes\<close> or the whole source is cached; after that
  \<open>target_notified\<close> is true and the body only waits. \<open>mpv_preload_get_info\<close> does
  not call the callback.
\<close>

theorem notification_discipline:
  "(Callback f u info \<in> set (snd (preload_thread_step eng cb i e)) \<longrightarrow>
      cb = Some f \<and> u = url e
      \<and> (info_status info = MPV_PRELOAD_STATUS_READY
         \<or> info_status info = MPV_PRELOAD_STATUS_CACHED
         \<or> info_status info = MPV_PRELOAD_STATUS_ERROR)
      \<and> info_status info = status (fst (preload_thread_step eng cb i e))
      \<and> callback_info (fst (preload_thread_step eng cb i e)) = info
      \<and> fill_preload_info eng (fst (preload_thread_step eng cb i e)) = info)
   \<and> set (callback_statuses (concat (map snd (thread_run envs i e))))
       \<subseteq> {MPV_PRELOAD_STATUS_READY, MPV_PRELOAD_STATUS_CACHED, MPV_PRELOAD_STATUS_ERROR}
   \<and> length (filter (\<lambda>s. s = MPV_PRELOAD_STATUS_CACHED)
               (callback_statuses (concat (map snd (thread_run envs i e))))) \<le> 1
   \<and> (thread e = T_body False \<and> demuxer e = Some d \<longrightarrow>
        (if max_bytes e \<le> fw_bytes (demux_get_reader_state eng d)
            \<or> eof_cached (demux_get_reader_state eng d)
         then status (fst (preload_thread_step eng cb i e)) = MPV_PRELOAD_STATUS_CACHED
              \<and> thread (fst (preload_thread_step eng cb i e)) = T_test True
              \<and> callback_statuses (snd (preload_thread_step eng cb i e))
                  = (case cb of None \<Rightarrow> [] | Some g \<Rightarrow> [MPV_PRELOAD_STATUS_CACHED])
         else fst (preload_thread_step eng cb i e) = e\<lparr> thread := T_test False \<rparr>
              \<and> callback_statuses (snd (preload_thread_step eng cb i e)) = []))
   \<and> (thread e = T_body True \<longrightarrow>
        preload_thread_step eng cb i e = (e\<lparr> thread := T_test True \<rparr>, [CancelWait i]))
   \<and> Callback f u info \<notin> set (snd (snd (mpv_preload_get_info eng u0 info0 c)))"
proof -
  have p1: "Callback f u info \<in> set (snd (preload_thread_step eng cb i e)) \<longrightarrow>
      cb = Some f \<and> u = url e
      \<and> (info_status info = MPV_PRELOAD_STATUS_READY
         \<or> info_status info = MPV_PRELOAD_STATUS_CACHED
         \<or> info_status info = MPV_PRELOAD_STATUS_ERROR)
      \<and> info_status info = status (fst (preload_thread_step eng cb i e))
      \<and> callback_info (fst (preload_thread_step eng cb i e)) = info
      \<and> fill_preload_info eng (fst (preload_thread_step eng cb i e)) = info"
    using step_callback_events [of f u info eng cb i e] by blast
  note once = may_notify_once [OF thread_run_may_notify [of e envs i]]
  have p2: "set (callback_statuses (concat (map snd (thread_run envs i e))))
       \<subseteq> {MPV_PRELOAD_STATUS_READY, MPV_PRELOAD_STATUS_CACHED, MPV_PRELOAD_STATUS_ERROR}"
    using once by (rule conjunct1)
  have p3: "length (filter (\<lambda>s. s = MPV_PRELOAD_STATUS_CACHED)
               (callback_statuses (concat (map snd (thread_run envs i e))))) \<le> 1"
    using once by (rule conjunct2)
  have p4: "thread e = T_body False \<and> demuxer e = Some d \<longrightarrow>
        (if max_bytes e \<le> fw_bytes (demux_get_reader_state eng d)
            \<or> eof_cached (demux_get_reader_state eng d)
         then status (fst (preload_thread_step eng cb i e)) = MPV_PRELOAD_STATUS_CACHED
              \<and> thread (fst (preload_thread_step eng cb i e)) = T_test True
              \<and> callback_statuses (snd (preload_thread_step eng cb i e))
                  = (case cb of None \<Rightarrow> [] | Some g \<Rightarrow> [MPV_PRELOAD_STATUS_CACHED])
         else fst (preload_thread_step eng cb i e) = e\<lparr> thread := T_test False \<rparr>
              \<and> callback_statuses (snd (preload_thread_step eng cb i e)) = [])"
    using step_poll [of e d eng cb i] by blast
  have p5: "thread e = T_body True \<longrightarrow>
        preload_thread_step eng cb i e = (e\<lparr> thread := T_test True \<rparr>, [CancelWait i])"
    using step_no_poll [of e eng cb i] by blast
  have p6: "Callback f u info \<notin> set (snd (snd (mpv_preload_get_info eng u0 info0 c)))"
    by (auto simp: mpv_preload_get_info_def split: option.splits)
  from p1 p2 p3 p4 p5 p6 show ?thesis by (intro conjI)
qed

theorem notification_discipline_witness:
  "thread polling_entry = T_body False \<and> demuxer polling_entry = Some 7
   \<and> max_bytes polling_entry \<le> fw_bytes (demux_get_reader_state demo_engine 7)
   \<and> status (fst (preload_thread_step demo_engine (Some 3) 0 polling_entry))
       = MPV_PRELOAD_STATUS_CACHED
   \<and> thread (fst (preload_thread_step demo_engine (Some 3) 0 polling_entry)) = T_test True
   \<and> callback_statuses (snd (preload_thread_step demo_engine (Some 3) 0 polling_entry))
       = [MPV_PRELOAD_STATUS_CACHED]
   \<and> (\<exists>info. Callback 3 (Some ''a'') info
                 \<in> set (snd (preload_thread_step demo_engine (Some 3) 0 polling_entry))
         \<and> info_status info = MPV_PRELOAD_STATUS_CACHED
         \<and> callback_info (fst (preload_thread_step demo_engine (Some 3) 0 polling_entry))
             = info)
   \<and> callback_statuses (concat (map snd
        (thread_run [(demo_engine, Some 3, NoInterference), (demo_engine, Some 3, NoInterference),
               (demo_engine, Some 3, NoInterference), (demo_engine, Some 3, NoInterference),
               (demo_engine, Some 3, NoInterference), (demo_engine, Some 3, SoftStop)]
           0 small_entry)))
       = [MPV_PRELOAD_STATUS_READY, MPV_PRELOAD_STATUS_CACHED]
   \<and> length (filter (\<lambda>s. s = MPV_PRELOAD_STATUS_CACHED)
        [MPV_PRELOAD_STATUS_READY, MPV_PRELOAD_STATUS_CACHED]) \<le> 1"
proof -
  let ?info = "fill_preload_info demo_engine
                 (polling_entry\<lparr> status := MPV_PRELOAD_STATUS_CACHED \<rparr>)"
  have a: "thread polling_entry = T_body False" "demuxer polling_entry = Some 7"
    by (simp_all add: polling_entry_sel)
  have b: "max_bytes polling_entry \<le> fw_bytes (demux_get_reader_state demo_engine 7)"
    by (simp add: polling_entry_sel demo_engine_def)
  have m: "Callback 3 (Some ''a'') ?info
             \<in> set (snd (preload_thread_step demo_engine (Some 3) 0 polling_entry))"
    by (simp add: polling_step_events)
  note t = notification_discipline [of 3 "Some ''a''" ?info demo_engine "Some 3" 0
      polling_entry
      "[(demo_engine, Some 3, NoInterference), (demo_engine, Some 3, NoInterference),
        (demo_engine, Some 3, NoInterference), (demo_engine, Some 3, NoInterference),
        (demo_engine, Some 3, NoInterference), (demo_engine, Some 3, SoftStop)]" 7]
  from t [THEN conjunct1] m
  have c: "info_status ?info = MPV_PRELOAD_STATUS_CACHED
           \<or> info_status ?info = MPV_PRELOAD_STATUS_READY
           \<or> info_status ?info = MPV_PRELOAD_STATUS_ERROR"
    and ci: "callback_info (fst (preload_thread_step demo_engine (Some 3) 0 polling_entry))
             = ?info"
    by auto
  have cs: "info_status ?info = MPV_PRELOAD_STATUS_CACHED" by simp
  from t [THEN conjunct2, THEN conjunct2, THEN conjunct2, THEN conjunct1] a b
  have p: "status (fst (preload_thread_step demo_engine (Some 3) 0 polling_entry))
             = MPV_PRELOAD_STATUS_CACHED"
    "thread (fst (preload_thread_step demo_engine (Some 3) 0 polling_entry)) = T_test True"
    "callback_statuses (snd (preload_thread_step demo_engine (Some 3) 0 polling_entry))
       = [MPV_PRELOAD_STATUS_CACHED]"
    by simp_all
  have ex: "\<exists>info. Callback 3 (Some ''a'') info
                 \<in> set (snd (preload_thread_step demo_engine (Some 3) 0 polling_entry))
         \<and> info_status info = MPV_PRELOAD_STATUS_CACHED
         \<and> callback_info (fst (preload_thread_step demo_engine (Some 3) 0 polling_entry))
             = info"
    using m cs ci by blast
  have l: "length (filter (\<lambda>s. s = MPV_PRELOAD_STATUS_CACHED)
        [MPV_PRELOAD_STATUS_READY, MPV_PRELOAD_STATUS_CACHED]) \<le> 1"
    by simp
  from a b p ex small_entry_run_callbacks l show ?thesis by (intro conjI)
qed

end
